theory Spec2Isabelle
  imports Main "HOL-Library.Word"
begin

unbundle bit_operations_syntax

section \<open>Configuration of the speculative tagged predictor\<close>

text \<open>
  The embedding follows the predictor class \<^verbatim>\<open>SampleCondPredictor\<close> of the header that
  keeps a cyclic prediction counter (\<^verbatim>\<open>pred_cycle\<close>) next to the global history register.
  The preprocessor constants keep their names.
\<close>

type_synonym u8 = "8 word"
type_synonym u16 = "16 word"
type_synonym u64 = "64 word"

definition NUM_TAGGED_TABLES :: nat where "NUM_TAGGED_TABLES = 12"
definition BASE_INDEX_BITS :: nat where "BASE_INDEX_BITS = 14"
definition BASE_PRED_BITS :: nat where "BASE_PRED_BITS = 2"
definition MAX_HISTORY :: nat where "MAX_HISTORY = 640"
definition MAX_HISTORY_BUFFER :: nat where "MAX_HISTORY_BUFFER = 32"
definition TAGE_PRED_BITS :: nat where "TAGE_PRED_BITS = 3"
definition TAGE_USEFUL_BITS :: nat where "TAGE_USEFUL_BITS = 2"
definition USE_ALT_THRESHOLD :: nat where "USE_ALT_THRESHOLD = 8"
definition RL_WEIGHTS_BITS :: nat where "RL_WEIGHTS_BITS = 4"
definition LEARNING_RATE :: int where "LEARNING_RATE = 1"
definition MAX_BYTES :: nat where "MAX_BYTES = 192 * 1024"
definition RESET_PERIOD :: nat where "RESET_PERIOD = 512 * 1024"

definition WEIGHT_MAX :: int where "WEIGHT_MAX = 2 ^ (RL_WEIGHTS_BITS - 1) - 1"
definition WEIGHT_MIN :: int where "WEIGHT_MIN = - (2 ^ (RL_WEIGHTS_BITS - 1))"

record TableConfig =
  hist_len :: nat
  index_bits :: nat
  tag_bits :: nat

definition entries :: "TableConfig \<Rightarrow> nat" where
  "entries cfg = 2 ^ index_bits cfg"

definition mk_cfg :: "nat \<Rightarrow> nat \<Rightarrow> nat \<Rightarrow> TableConfig" where
  "mk_cfg h i t = \<lparr>hist_len = h, index_bits = i, tag_bits = t\<rparr>"

definition TAGGED_CONFIGS :: "TableConfig list" where
  "TAGGED_CONFIGS =
    [mk_cfg 4 10 7, mk_cfg 6 10 7, mk_cfg 10 11 8, mk_cfg 16 11 8,
     mk_cfg 25 11 9, mk_cfg 40 11 10, mk_cfg 64 10 11, mk_cfg 101 10 12,
     mk_cfg 160 10 12, mk_cfg 254 9 13, mk_cfg 403 9 14, mk_cfg 640 9 15]"

section \<open>Predictor state\<close>

text \<open>
  \<^verbatim>\<open>int8_t\<close> and \<^verbatim>\<open>int32_t\<close> fields are integers; every store the source makes into them
  is written with the bound or the cast the source applies. The unsigned 8-bit cyclic counter
  is a word, since its wrap-around is what the rollback arithmetic rests on.
  Vectors are lists whose lengths the constructor fixes once and for all (see \<open>wf\<close> below);
  the deque is a list with the oldest bit at the head.
\<close>

record TaggedEntry =
  tag :: u16
  ctr :: int
  u :: nat

record SpeculativeState =
  provider_table :: int
  altpred :: bool
  final_pred :: bool
  state_pred_cycle :: u8
  prediction :: "int list"

record predictor =
  pred_cycle :: u8
  base_table :: "int list"
  weights :: "int list list"
  tagged_tables :: "TaggedEntry list list"
  ghr :: "bool list"
  use_alt_on_na :: nat
  reset_counter :: nat
  speculative_states :: "u64 \<rightharpoonup> SpeculativeState"

text \<open>
  The ways a call can fail to return. The two out-of-range accesses are undefined behaviour
  in the source, which checks neither; the model stops there.
\<close>

datatype error =
    BudgetAssertion         \<comment> \<open>the \<^verbatim>\<open>assert\<close> of \<^verbatim>\<open>check_memory_budget\<close> fails\<close>
  | GhrIndexOutOfRange      \<comment> \<open>\<^verbatim>\<open>ghr[...]\<close> written outside the deque\<close>
  | HashSkipOutOfRange      \<comment> \<open>\<^verbatim>\<open>hist.rbegin() + skip_hist\<close> past \<^verbatim>\<open>hist.rend()\<close>\<close>

text \<open>The constructor: cold tables, threshold meta-counter, empty history, no checkpoint.\<close>

definition SampleCondPredictor :: predictor where
  "SampleCondPredictor =
    \<lparr>pred_cycle = 0,
     base_table = replicate (2 ^ BASE_INDEX_BITS) 0,
     weights = replicate NUM_TAGGED_TABLES (replicate (MAX_HISTORY + 1) 0),
     tagged_tables = map (\<lambda>cfg. replicate (entries cfg) \<lparr>tag = 0, ctr = 0, u = 0\<rparr>) TAGGED_CONFIGS,
     ghr = [],
     use_alt_on_na = USE_ALT_THRESHOLD,
     reset_counter = 0,
     speculative_states = Map.empty\<rparr>"

text \<open>
  What \<^verbatim>\<open>speculative_states[id]\<close> inserts for a key that is not in the map: the mapped
  value is value-initialised, so every scalar field is zero; in particular the provider
  table is table 0, not the sentinel \<open>-1\<close>.
\<close>

definition value_init_state :: SpeculativeState where
  "value_init_state =
    \<lparr>provider_table = 0, altpred = False, final_pred = False, state_pred_cycle = 0,
     prediction = []\<rparr>"

definition lookup_or_insert :: "(u64 \<rightharpoonup> SpeculativeState) \<Rightarrow> u64 \<Rightarrow> SpeculativeState" where
  "lookup_or_insert m k = (case m k of None \<Rightarrow> value_init_state | Some st \<Rightarrow> st)"

definition wf :: "predictor \<Rightarrow> bool" where
  "wf s \<longleftrightarrow>
     length (base_table s) = 2 ^ BASE_INDEX_BITS \<and>
     map length (weights s) = replicate NUM_TAGGED_TABLES (MAX_HISTORY + 1) \<and>
     map length (tagged_tables s) = map entries TAGGED_CONFIGS"

text \<open>The provider recorded in a checkpoint: the sentinel or a table number.\<close>

definition provider_ok :: "SpeculativeState \<Rightarrow> bool" where
  "provider_ok st \<longleftrightarrow> provider_table st = -1
      \<or> (0 \<le> provider_table st \<and> provider_table st < int NUM_TAGGED_TABLES)"

text \<open>
  The ranges of the saturating counters: 3-bit signed prediction counters, 2-bit usefulness
  counters, 2-bit signed base counters and the 4-bit meta-counter.
\<close>

definition entry_in_range :: "TaggedEntry \<Rightarrow> bool" where
  "entry_in_range e \<longleftrightarrow> - 4 \<le> ctr e \<and> ctr e \<le> 3 \<and> u e \<le> 3"

definition counters_in_range :: "predictor \<Rightarrow> bool" where
  "counters_in_range s \<longleftrightarrow>
     list_all (list_all entry_in_range) (tagged_tables s)
     \<and> list_all (\<lambda>b. - 2 \<le> b \<and> b \<le> 1) (base_table s)
     \<and> use_alt_on_na s \<le> 15"

section \<open>Helper functions\<close>

text \<open>
  \<^verbatim>\<open>compute_hash\<close>: the loop walks the history from the newest bit, after skipping
  \<open>skip_hist\<close> bits, for at most \<open>hist_len\<close> bits, and folds bit number \<open>bits_used\<close>
  into position \<open>bits_used % out_bits\<close>. Advancing the reverse iterator past the end of
  the deque is undefined; callers check \<open>hash_skip_ok\<close> first.
\<close>

fun hash_loop :: "u64 \<Rightarrow> bool list \<Rightarrow> nat \<Rightarrow> nat \<Rightarrow> u64" where
  "hash_loop hash [] bits_used out_bits = hash"
| "hash_loop hash (b # bs) bits_used out_bits =
     hash_loop (hash XOR push_bit (bits_used mod out_bits) (of_bool b)) bs (Suc bits_used) out_bits"

definition hash_skip_ok :: "bool list \<Rightarrow> nat \<Rightarrow> bool" where
  "hash_skip_ok hist skip_hist \<longleftrightarrow> skip_hist \<le> length hist"

definition compute_hash :: "u64 \<Rightarrow> bool list \<Rightarrow> nat \<Rightarrow> nat \<Rightarrow> nat \<Rightarrow> u64" where
  "compute_hash pc hist hl skip_hist out_bits =
     hash_loop pc (take hl (drop skip_hist (rev hist))) 0 out_bits AND (push_bit out_bits 1 - 1)"

text \<open>
  \<^verbatim>\<open>get_sorted_indices\<close>: the indices of the array by descending value. The source calls
  \<^verbatim>\<open>std::sort\<close>, which leaves the order of equal elements to the library; on the twelve
  elements it is given here the common libraries run an insertion sort with the strict
  comparison, which keeps equal elements in index order. The model fixes that order.
\<close>

definition get_sorted_indices :: "int list \<Rightarrow> nat list" where
  "get_sorted_indices arr = sort_key (\<lambda>i. - (arr ! i)) [0..<length arr]"

definition get_unique_inst_id :: "u64 \<Rightarrow> u8 \<Rightarrow> u64" where
  "get_unique_inst_id seq_no piece = push_bit 4 seq_no OR ucast (piece AND 0xF)"

section \<open>Memory budget\<close>

text \<open>
  \<^verbatim>\<open>check_memory_budget\<close> reads only preprocessor constants. They are gathered in a record
  so that the check can be stated for any configuration; \<open>default_budget\<close> holds the values
  of the source. In \<^verbatim>\<open>size & 7 > 0 ? 1 : 0\<close> the comparison binds tighter than \<^verbatim>\<open>&\<close>, so
  the expression is \<^verbatim>\<open>size & 1\<close>: one byte is added when the bit count is odd.
  The sizes are natural numbers; they are the \<^verbatim>\<open>int\<close> and \<^verbatim>\<open>size_t\<close> values of the source
  as long as no product leaves the range of \<^verbatim>\<open>int\<close>. The \<^verbatim>\<open>assert\<close> is taken as compiled
  in.
\<close>

record budget_config =
  cfg_max_history :: nat
  cfg_max_history_buffer :: nat
  cfg_base_index_bits :: nat
  cfg_base_pred_bits :: nat
  cfg_rl_weights_bits :: nat
  cfg_tage_pred_bits :: nat
  cfg_tage_useful_bits :: nat
  cfg_tagged_configs :: "TableConfig list"
  cfg_max_bytes :: nat

definition default_budget :: budget_config where
  "default_budget =
    \<lparr>cfg_max_history = MAX_HISTORY, cfg_max_history_buffer = MAX_HISTORY_BUFFER,
     cfg_base_index_bits = BASE_INDEX_BITS, cfg_base_pred_bits = BASE_PRED_BITS,
     cfg_rl_weights_bits = RL_WEIGHTS_BITS, cfg_tage_pred_bits = TAGE_PRED_BITS,
     cfg_tage_useful_bits = TAGE_USEFUL_BITS, cfg_tagged_configs = TAGGED_CONFIGS,
     cfg_max_bytes = MAX_BYTES\<rparr>"

definition size_bits :: "budget_config \<Rightarrow> nat" where
  "size_bits c =
     cfg_max_history c + cfg_max_history_buffer c
     + 2 ^ cfg_base_index_bits c * cfg_base_pred_bits c
     + cfg_rl_weights_bits c * (cfg_max_history c + 1) * length (cfg_tagged_configs c)
     + sum_list (map (\<lambda>cfg. entries cfg * (tag_bits cfg + cfg_tage_pred_bits c + cfg_tage_useful_bits c))
                     (cfg_tagged_configs c))"

definition size_bytes :: "budget_config \<Rightarrow> nat" where
  "size_bytes c = drop_bit 3 (size_bits c) + (if size_bits c AND 1 \<noteq> 0 then 1 else 0)"

definition check_memory_budget :: "budget_config \<Rightarrow> error + unit" where
  "check_memory_budget c = (if size_bytes c \<le> cfg_max_bytes c then Inr () else Inl BudgetAssertion)"

text \<open>\<^verbatim>\<open>setup()\<close> only runs the budget check; the tables were filled by the constructor.\<close>

definition setup_predictor :: "error + unit" where
  "setup_predictor = check_memory_budget default_budget"

section \<open>Prediction\<close>

text \<open>
  The slot of table \<open>i\<close> that a program counter selects when the newest \<open>skip\<close>
  history bits are skipped, and the tag expected there (the source stores the hash in a
  \<^verbatim>\<open>uint16_t\<close>).
\<close>

definition hash_idx :: "TaggedEntry list list \<Rightarrow> bool list \<Rightarrow> u64 \<Rightarrow> nat \<Rightarrow> nat \<Rightarrow> nat" where
  "hash_idx tabs hist PC i skip =
     unat (compute_hash PC hist (hist_len (TAGGED_CONFIGS ! i)) skip (index_bits (TAGGED_CONFIGS ! i)))
       mod length (tabs ! i)"

definition hash_tag :: "bool list \<Rightarrow> u64 \<Rightarrow> nat \<Rightarrow> nat \<Rightarrow> u16" where
  "hash_tag hist PC i skip =
     ucast (compute_hash PC hist (hist_len (TAGGED_CONFIGS ! i)) skip (tag_bits (TAGGED_CONFIGS ! i)))"

definition tag_match :: "predictor \<Rightarrow> u64 \<Rightarrow> nat \<Rightarrow> bool" where
  "tag_match s PC i \<longleftrightarrow>
     tag (tagged_tables s ! i ! hash_idx (tagged_tables s) (ghr s) PC i 0) = hash_tag (ghr s) PC i 0"

definition entry_at :: "predictor \<Rightarrow> u64 \<Rightarrow> nat \<Rightarrow> TaggedEntry" where
  "entry_at s PC i = tagged_tables s ! i ! hash_idx (tagged_tables s) (ghr s) PC i 0"

text \<open>The score of table \<open>i\<close>: signed sum of its weights over the history, plus the bias.\<close>

definition rl_prediction :: "predictor \<Rightarrow> nat \<Rightarrow> int" where
  "rl_prediction s i =
     sum_list (map (\<lambda>j. if ghr s ! j then weights s ! i ! j else - (weights s ! i ! j))
                   [0..<min MAX_HISTORY (length (ghr s))])
     + weights s ! i ! (length (weights s ! i) - 1)"

text \<open>
  The loop over \<^verbatim>\<open>top_pred_idxs\<close>: the first matching table becomes the provider, the
  next matching one sets the alternate prediction and ends the loop.
\<close>

fun find_tables :: "predictor \<Rightarrow> u64 \<Rightarrow> nat list \<Rightarrow> SpeculativeState \<Rightarrow> SpeculativeState" where
  "find_tables s PC [] state = state"
| "find_tables s PC (i # is) state =
     (if provider_table state = -1 then
        (if tag_match s PC i
         then find_tables s PC is
                (state\<lparr>provider_table := int i, final_pred := (ctr (entry_at s PC i) \<ge> 0)\<rparr>)
         else find_tables s PC is state)
      else
        (if tag_match s PC i
         then state\<lparr>altpred := (ctr (entry_at s PC i) \<ge> 0)\<rparr>
         else find_tables s PC is state))"

definition top_pred_idxs :: "predictor \<Rightarrow> nat list" where
  "top_pred_idxs s = get_sorted_indices (map (rl_prediction s) [0..<NUM_TAGGED_TABLES])"

text \<open>
  \<^verbatim>\<open>predict\<close> declares its local \<^verbatim>\<open>SpeculativeState state;\<close> without an initialiser and
  assigns every field but \<^verbatim>\<open>pred_cycle\<close>. What that field holds when the checkpoint is
  stored is whatever the stack held; the model takes it as the last argument.
\<close>

definition use_alt :: "predictor \<Rightarrow> u64 \<Rightarrow> SpeculativeState \<Rightarrow> SpeculativeState" where
  "use_alt s PC state =
     (if provider_table state \<noteq> -1 then
        (if \<bar>ctr (entry_at s PC (nat (provider_table state)))\<bar> \<le> 1
              \<and> use_alt_on_na s \<ge> USE_ALT_THRESHOLD
         then state\<lparr>final_pred := altpred state\<rparr> else state)
      else state)"

definition predict_state :: "predictor \<Rightarrow> u64 \<Rightarrow> u8 \<Rightarrow> SpeculativeState" where
  "predict_state s PC uninit =
     (let base_idx = unat PC mod length (base_table s);
          base_pred = (base_table s ! base_idx \<ge> 0);
          state = \<lparr>provider_table = -1, altpred = base_pred, final_pred = base_pred,
                   state_pred_cycle = uninit,
                   prediction = map (rl_prediction s) [0..<NUM_TAGGED_TABLES]\<rparr>
      in use_alt s PC (find_tables s PC (top_pred_idxs s) state))"

definition predict :: "predictor \<Rightarrow> u64 \<Rightarrow> u8 \<Rightarrow> u64 \<Rightarrow> bool \<Rightarrow> u8 \<Rightarrow> predictor \<times> bool" where
  "predict s seq_no piece PC tage_pred uninit =
     (let id = get_unique_inst_id seq_no piece;
          state = predict_state s PC uninit
      in (s\<lparr>speculative_states := (speculative_states s)(id \<mapsto> state)\<rparr>, final_pred state))"

text \<open>
  The scan of the stash variant \<^verbatim>\<open>my_cond_branch_predictor_tage_good.h\<close>, for comparison:
  the outer loop runs over the tables from the last to the first and stops at the first
  match; the inner loop then runs over the tables below it. Its \<^verbatim>\<open>compute_hash\<close> is the one
  above with no bits skipped. The lists are the table numbers still to visit.
\<close>

fun tage_good_alt :: "predictor \<Rightarrow> u64 \<Rightarrow> nat list \<Rightarrow> SpeculativeState \<Rightarrow> SpeculativeState" where
  "tage_good_alt s PC [] state = state"
| "tage_good_alt s PC (j # js) state =
     (if tag_match s PC j then state\<lparr>altpred := (ctr (entry_at s PC j) \<ge> 0)\<rparr>
      else tage_good_alt s PC js state)"

fun tage_good_scan :: "predictor \<Rightarrow> u64 \<Rightarrow> nat list \<Rightarrow> SpeculativeState \<Rightarrow> SpeculativeState" where
  "tage_good_scan s PC [] state = state"
| "tage_good_scan s PC (i # is) state =
     (if tag_match s PC i
      then tage_good_alt s PC is
             (state\<lparr>provider_table := int i, final_pred := (ctr (entry_at s PC i) \<ge> 0)\<rparr>)
      else tage_good_scan s PC is state)"

section \<open>Speculative history update\<close>

definition push_ghr :: "'a list \<Rightarrow> 'a \<Rightarrow> 'a list" where
  "push_ghr hist taken =
     (let g = hist @ [taken]
      in if length g > MAX_HISTORY + MAX_HISTORY_BUFFER then tl g else g)"

definition history_update :: "predictor \<Rightarrow> u64 \<Rightarrow> u8 \<Rightarrow> u64 \<Rightarrow> bool \<Rightarrow> u64 \<Rightarrow> predictor" where
  "history_update s seq_no piece PC taken nextPC =
     (let cyc = pred_cycle s + 1;
          id = get_unique_inst_id seq_no piece;
          state = lookup_or_insert (speculative_states s) id
      in s\<lparr>pred_cycle := cyc,
            ghr := push_ghr (ghr s) taken,
            speculative_states := (speculative_states s)(id \<mapsto> state\<lparr>state_pred_cycle := cyc\<rparr>)\<rparr>)"

section \<open>Resolution\<close>

text \<open>
  The rollback distance is the difference of two unsigned 8-bit counters, stored in an
  unsigned 8-bit variable.
\<close>

definition delta_cycles :: "predictor \<Rightarrow> SpeculativeState \<Rightarrow> u8" where
  "delta_cycles s state = pred_cycle s - state_pred_cycle state"

text \<open>
  \<^verbatim>\<open>ghr[ghr.size() - delta_cycles - 1] = resolveDir\<close> on a misprediction. The index is
  computed in \<^verbatim>\<open>size_t\<close>; it is inside the deque exactly when \<open>delta < length hist\<close>,
  and the deque does not check it.
\<close>

definition rollback_ghr :: "bool list \<Rightarrow> nat \<Rightarrow> bool \<Rightarrow> bool \<Rightarrow> error + bool list" where
  "rollback_ghr hist delta resolveDir predDir =
     (if predDir \<noteq> resolveDir then
        (if delta < length hist then Inr (hist[length hist - delta - 1 := resolveDir])
         else Inl GhrIndexOutOfRange)
      else Inr hist)"

definition update_ctr :: "int \<Rightarrow> bool \<Rightarrow> int" where
  "update_ctr c resolveDir =
     (if resolveDir then min (c + 1) (2 ^ (TAGE_PRED_BITS - 1) - 1)
      else max (c - 1) (- (2 ^ (TAGE_PRED_BITS - 1))))"

definition update_useful :: "nat \<Rightarrow> bool \<Rightarrow> bool \<Rightarrow> bool \<Rightarrow> nat" where
  "update_useful v alt resolveDir predDir =
     (if alt \<noteq> predDir then
        (if resolveDir = predDir then min (v + 1) (2 ^ TAGE_USEFUL_BITS - 1)
         else nat (max (int v - 1) 0))
      else v)"

definition update_provider ::
  "TaggedEntry list list \<Rightarrow> bool list \<Rightarrow> u64 \<Rightarrow> nat \<Rightarrow> nat \<Rightarrow> bool \<Rightarrow> bool \<Rightarrow> bool
    \<Rightarrow> TaggedEntry list list" where
  "update_provider tabs hist PC delta p alt resolveDir predDir =
     (let idx = hash_idx tabs hist PC p delta;
          entry = tabs ! p ! idx
      in tabs[p := (tabs ! p)[idx := entry\<lparr>ctr := update_ctr (ctr entry) resolveDir,
                                          u := update_useful (u entry) alt resolveDir predDir\<rparr>]])"

text \<open>
  The allocation loop over \<open>k = provider_table + 1, ..., NUM_TAGGED_TABLES - 1\<close>. It
  returns the tables and the value of \<open>k\<close> after the loop: the table that took the new
  entry, or \<open>NUM_TAGGED_TABLES\<close> when the loop ran to its end.
\<close>

fun alloc_loop ::
  "TaggedEntry list list \<Rightarrow> bool list \<Rightarrow> u64 \<Rightarrow> nat \<Rightarrow> bool \<Rightarrow> nat list
    \<Rightarrow> TaggedEntry list list \<times> nat" where
  "alloc_loop tabs hist PC delta resolveDir [] = (tabs, NUM_TAGGED_TABLES)"
| "alloc_loop tabs hist PC delta resolveDir (k # ks) =
     (let alloc_idx = hash_idx tabs hist PC k delta in
      if u (tabs ! k ! alloc_idx) = 0 then
        (tabs[k := (tabs ! k)[alloc_idx :=
            \<lparr>tag = hash_tag hist PC k delta, ctr = (if resolveDir then 0 else -1), u = 0\<rparr>]], k)
      else alloc_loop tabs hist PC delta resolveDir ks)"

definition int8_cast :: "int \<Rightarrow> int" where
  "int8_cast x = sint (word_of_int x :: 8 word)"

definition clamp_weight :: "int \<Rightarrow> int" where
  "clamp_weight x = max (min (int8_cast x) WEIGHT_MAX) WEIGHT_MIN"

text \<open>The two loops that adjust the weights of table \<open>i\<close>; \<open>target\<close> is \<open>i == k\<close>.\<close>

definition update_weight_row :: "int list \<Rightarrow> bool list \<Rightarrow> nat \<Rightarrow> int \<Rightarrow> int list" where
  "update_weight_row w hist delta target =
     (let w1 = fold (\<lambda>j w'. w'[j := clamp_weight
                        (w' ! j + (if hist ! (length hist - delta - j - 1) then 1 else -1)
                                   * target * LEARNING_RATE)])
                    [0..<min MAX_HISTORY (length hist)] w
      in w1[length w1 - 1 := clamp_weight (w1 ! (length w1 - 1) + LEARNING_RATE * target)])"

definition update_weights :: "int list list \<Rightarrow> bool list \<Rightarrow> nat \<Rightarrow> nat \<Rightarrow> int list list" where
  "update_weights ws hist delta k =
     (if length hist \<ge> delta + MAX_HISTORY + 1 then
        fold (\<lambda>i ws'. ws'[i := update_weight_row (ws' ! i) hist delta (if i = k then 1 else 0)])
             [0..<NUM_TAGGED_TABLES] ws
      else ws)"

definition update_base :: "int list \<Rightarrow> u64 \<Rightarrow> bool \<Rightarrow> int list" where
  "update_base bt PC resolveDir =
     (let base_idx = unat PC mod length bt in
      bt[base_idx := (if resolveDir then min (bt ! base_idx + 1) (2 ^ (BASE_PRED_BITS - 1) - 1)
                      else max (bt ! base_idx - 1) (- (2 ^ (BASE_PRED_BITS - 1))))])"

definition update_use_alt :: "nat \<Rightarrow> SpeculativeState \<Rightarrow> bool \<Rightarrow> bool \<Rightarrow> nat" where
  "update_use_alt m state resolveDir predDir =
     (if provider_table state \<noteq> -1 then
        (if altpred state = resolveDir \<and> predDir \<noteq> resolveDir then min (m + 1) 15
         else if altpred state \<noteq> resolveDir \<and> predDir = resolveDir then nat (max (int m - 1) 0)
         else m)
      else m)"

definition age_useful :: "TaggedEntry list list \<Rightarrow> TaggedEntry list list" where
  "age_useful tabs = map (map (\<lambda>entry. entry\<lparr>u := drop_bit 1 (u entry)\<rparr>)) tabs"

text \<open>
  The tables, weights and base table after the block \<^verbatim>\<open>if (state.provider_table != -1)
  { ... } else { ... }\<close>. Allocation and the weight update are inside the first branch.
\<close>

definition update_tables ::
  "predictor \<Rightarrow> bool list \<Rightarrow> SpeculativeState \<Rightarrow> nat \<Rightarrow> u64 \<Rightarrow> bool \<Rightarrow> bool
    \<Rightarrow> TaggedEntry list list \<times> int list list \<times> int list" where
  "update_tables s hist state delta PC resolveDir predDir =
     (if provider_table state \<noteq> -1 then
        (let p = nat (provider_table state);
             tabs1 = update_provider (tagged_tables s) hist PC delta p (altpred state) resolveDir predDir
         in if (\<not> resolveDir) = predDir then
              (let (tabs2, k) = alloc_loop tabs1 hist PC delta resolveDir [p + 1..<NUM_TAGGED_TABLES]
               in (tabs2, update_weights (weights s) hist delta k, base_table s))
            else (tabs1, weights s, base_table s))
      else (tagged_tables s, weights s, update_base (base_table s) PC resolveDir))"

text \<open>
  \<^verbatim>\<open>update\<close>. Every call of \<^verbatim>\<open>compute_hash\<close> in it takes the same history and the same
  skip, so the range of the skip is checked once, where the first call is made.
\<close>

definition update ::
  "predictor \<Rightarrow> u64 \<Rightarrow> u8 \<Rightarrow> u64 \<Rightarrow> bool \<Rightarrow> bool \<Rightarrow> u64 \<Rightarrow> error + predictor" where
  "update s seq_no piece PC resolveDir predDir nextPC =
     (let id = get_unique_inst_id seq_no piece;
          state = lookup_or_insert (speculative_states s) id;
          delta = unat (delta_cycles s state)
      in case rollback_ghr (ghr s) delta resolveDir predDir of
           Inl e \<Rightarrow> Inl e
         | Inr hist \<Rightarrow>
             if provider_table state \<noteq> -1 \<and> \<not> hash_skip_ok hist delta then Inl HashSkipOutOfRange
             else
               (let (tabs, ws, bt) = update_tables s hist state delta PC resolveDir predDir;
                    m = update_use_alt (use_alt_on_na s) state resolveDir predDir;
                    rc = (reset_counter s + 1) mod 2 ^ 32;
                    aged = (rc \<ge> RESET_PERIOD)
                in Inr (s\<lparr>base_table := bt,
                          weights := ws,
                          tagged_tables := (if aged then age_useful tabs else tabs),
                          ghr := hist,
                          use_alt_on_na := m,
                          reset_counter := (if aged then 0 else rc),
                          speculative_states := (speculative_states s)(id := None)\<rparr>)))"

section \<open>Call sequences\<close>

datatype call =
    Predict u64 u8 u64 bool u8
  | HistoryUpdate u64 u8 u64 bool u64
  | Update u64 u8 u64 bool bool u64

fun call_id :: "call \<Rightarrow> u64" where
  "call_id (Predict seq_no piece PC tage_pred uninit) = get_unique_inst_id seq_no piece"
| "call_id (HistoryUpdate seq_no piece PC taken nextPC) = get_unique_inst_id seq_no piece"
| "call_id (Update seq_no piece PC resolveDir predDir nextPC) = get_unique_inst_id seq_no piece"

fun is_push :: "call \<Rightarrow> bool" where
  "is_push (HistoryUpdate seq_no piece PC taken nextPC) = True"
| "is_push c = False"

fun step :: "predictor \<Rightarrow> call \<Rightarrow> error + predictor" where
  "step s (Predict seq_no piece PC tage_pred uninit) = Inr (fst (predict s seq_no piece PC tage_pred uninit))"
| "step s (HistoryUpdate seq_no piece PC taken nextPC) = Inr (history_update s seq_no piece PC taken nextPC)"
| "step s (Update seq_no piece PC resolveDir predDir nextPC) = update s seq_no piece PC resolveDir predDir nextPC"

fun run :: "predictor \<Rightarrow> call list \<Rightarrow> error + predictor" where
  "run s [] = Inr s"
| "run s (c # cs) = (case step s c of Inl e \<Rightarrow> Inl e | Inr s' \<Rightarrow> run s' cs)"

text \<open>
  Bookkeeping for the statements below, not part of the predictor: the identity that pushed
  each bit of the history register, kept the way \<^verbatim>\<open>history_update\<close> keeps the register.
\<close>

fun owners :: "u64 list \<Rightarrow> call list \<Rightarrow> u64 list" where
  "owners os [] = os"
| "owners os (c # cs) = owners (if is_push c then push_ghr os (call_id c) else os) cs"

section \<open>Scenarios\<close>

text \<open>
  Identity \<open>(1, 0)\<close> pushes its bit into the cold predictor, then the 256 identities
  \<open>(2, 0)\<close>, ..., \<open>(257, 0)\<close> push one bit each.
\<close>

definition other_pushes :: "call list" where
  "other_pushes = map (\<lambda>k. HistoryUpdate (of_nat (k + 2)) 0 4104 True 4108) [0..<256]"

definition after_256_pushes :: "error + predictor" where
  "after_256_pushes = run (history_update SampleCondPredictor 1 0 4096 True 4100) other_pushes"

section \<open>The budget as the specification words it\<close>

text \<open>
  The total that the specification describes: history register, base table and every tagged
  table, rounded up to bytes. It is compared below with \<open>size_bits\<close> and \<open>size_bytes\<close>,
  which follow the source.
\<close>

definition spec_size_bits :: "budget_config \<Rightarrow> nat" where
  "spec_size_bits c =
     cfg_max_history c + cfg_max_history_buffer c
     + 2 ^ cfg_base_index_bits c * cfg_base_pred_bits c
     + sum_list (map (\<lambda>cfg. entries cfg * (tag_bits cfg + cfg_tage_pred_bits c + cfg_tage_useful_bits c))
                     (cfg_tagged_configs c))"

definition spec_size_bytes :: "budget_config \<Rightarrow> nat" where
  "spec_size_bytes c = (spec_size_bits c + 7) div 8"

text \<open>The configuration of the source with a budget of 32000 bytes.\<close>

definition small_budget :: budget_config where
  "small_budget = default_budget\<lparr>cfg_max_bytes := 32000\<rparr>"

text \<open>
  Identity \<open>(1, 0)\<close> is predicted, pushes its bit and is resolved twice in a row.
\<close>

definition double_update :: "call list" where
  "double_update =
     [Predict 1 0 4096 False 0, HistoryUpdate 1 0 4096 True 4100,
      Update 1 0 4096 True True 4100, Update 1 0 4096 True True 4100]"

text \<open>
  The cold predictor with the bias weight of table 1 set to 1, and the cold predictor with
  the counter of entry 0 of table 0 at \<open>-3\<close>.
\<close>

definition biased_predictor :: predictor where
  "biased_predictor =
     SampleCondPredictor\<lparr>weights :=
       (weights SampleCondPredictor)[1 := (weights SampleCondPredictor ! 1)[MAX_HISTORY := 1]]\<rparr>"

definition trained_predictor :: predictor where
  "trained_predictor =
     SampleCondPredictor\<lparr>tagged_tables :=
       (tagged_tables SampleCondPredictor)[0 := (tagged_tables SampleCondPredictor ! 0)
          [0 := \<lparr>tag = 0, ctr = -3, u = 0\<rparr>]]\<rparr>"

text \<open>
  A state that differs from \<open>s\<close> in one counter only: the prediction counter of the slot
  that the program counter selects in table \<open>i\<close>.
\<close>

definition set_ctr :: "predictor \<Rightarrow> u64 \<Rightarrow> nat \<Rightarrow> int \<Rightarrow> predictor" where
  "set_ctr s PC i c =
     s\<lparr>tagged_tables := (tagged_tables s)
          [i := (tagged_tables s ! i)
             [hash_idx (tagged_tables s) (ghr s) PC i 0 := (entry_at s PC i)\<lparr>ctr := c\<rparr>]]\<rparr>"

section \<open>Allocation as the specification words it\<close>

text \<open>
  A slot is free when its usefulness is 0; the fresh entry carries the hashed tag, a counter
  that is weakly on the side of the resolved direction, and usefulness 0. \<open>spec_allocate\<close>
  takes the first table above the provider, in ascending order, whose slot is free, and
  leaves the tables alone when there is none. It is compared below with \<open>alloc_loop\<close>.
\<close>

definition free_slot :: "TaggedEntry list list \<Rightarrow> bool list \<Rightarrow> u64 \<Rightarrow> nat \<Rightarrow> nat \<Rightarrow> bool" where
  "free_slot tabs hist PC delta k \<longleftrightarrow> u (tabs ! k ! hash_idx tabs hist PC k delta) = 0"

definition fresh_entry :: "bool list \<Rightarrow> u64 \<Rightarrow> nat \<Rightarrow> nat \<Rightarrow> bool \<Rightarrow> TaggedEntry" where
  "fresh_entry hist PC delta k resolveDir =
     \<lparr>tag = hash_tag hist PC k delta, ctr = (if resolveDir then 0 else -1), u = 0\<rparr>"

definition spec_allocate ::
  "TaggedEntry list list \<Rightarrow> bool list \<Rightarrow> u64 \<Rightarrow> nat \<Rightarrow> bool \<Rightarrow> nat \<Rightarrow> TaggedEntry list list" where
  "spec_allocate tabs hist PC delta resolveDir p =
     (case find (free_slot tabs hist PC delta) [p + 1..<NUM_TAGGED_TABLES] of
        None \<Rightarrow> tabs
      | Some k \<Rightarrow> tabs[k := (tabs ! k)[hash_idx tabs hist PC k delta := fresh_entry hist PC delta k resolveDir]])"

text \<open>
  A misprediction on the cold predictor, resolved after one push: at program counter 0x1001,
  where no table matches, and at 0x1000, where table 0 provides.
\<close>

definition base_mispredict :: "call list" where
  "base_mispredict =
     [Predict 1 0 4097 False 0, HistoryUpdate 1 0 4097 True 4101, Update 1 0 4097 False True 4101]"

definition tagged_mispredict :: "call list" where
  "tagged_mispredict =
     [Predict 1 0 4096 False 0, HistoryUpdate 1 0 4096 True 4100, Update 1 0 4096 False True 4100]"

text \<open>
  One round of a branch at \<open>PC\<close> that is predicted, pushes a not-taken bit into the
  history and is resolved in direction \<open>d\<close> as predicted; and \<open>n\<close> such rounds in a
  row. The pushed bits are not taken so that the slots the hashes select stay the same from
  round to round.
\<close>

definition same_direction_round :: "u64 \<Rightarrow> u64 \<Rightarrow> bool \<Rightarrow> call list" where
  "same_direction_round PC nextPC d =
     [Predict 1 0 PC False 0, HistoryUpdate 1 0 PC False nextPC, Update 1 0 PC d d nextPC]"

definition same_direction_rounds :: "u64 \<Rightarrow> u64 \<Rightarrow> bool \<Rightarrow> nat \<Rightarrow> call list" where
  "same_direction_rounds PC nextPC d n = concat (replicate n (same_direction_round PC nextPC d))"

section \<open>Calls made for other identities\<close>

lemma step_other_id:
  assumes "step s c = Inr s'" "call_id c \<noteq> i"
  shows "speculative_states s' i = speculative_states s i
       \<and> pred_cycle s' = pred_cycle s + (if is_push c then 1 else 0)"
  using assms
  by (cases c)
     (auto simp: predict_def history_update_def update_def Let_def
           split: sum.splits if_splits prod.splits)

lemma run_other_ids:
  assumes "run s cs = Inr s'" "\<forall>c \<in> set cs. call_id c \<noteq> i"
  shows "speculative_states s' i = speculative_states s i
       \<and> pred_cycle s' = pred_cycle s + of_nat (length (filter is_push cs))"
  using assms
proof (induction cs arbitrary: s)
  case Nil
  then show ?case by simp
next
  case (Cons c cs)
  then obtain s1 where s1: "step s c = Inr s1" "run s1 cs = Inr s'"
    by (auto split: sum.splits)
  from step_other_id[OF s1(1)] Cons.prems(2)
  have a: "speculative_states s1 i = speculative_states s i"
     "pred_cycle s1 = pred_cycle s + (if is_push c then 1 else 0)" by auto
  from Cons.IH[OF s1(2)] Cons.prems(2)
  have b: "speculative_states s' i = speculative_states s1 i"
     "pred_cycle s' = pred_cycle s1 + of_nat (length (filter is_push cs))" by auto
  show ?case using a b by simp
qed

lemma pushes_run_ok:
  "\<forall>c \<in> set cs. is_push c \<Longrightarrow> \<exists>s'. run s cs = Inr s'"
proof (induction cs arbitrary: s)
  case Nil then show ?case by simp
next
  case (Cons c cs)
  then show ?case by (cases c) auto
qed

lemma delta_cycles_after_run:
  assumes "run (history_update s seq_no piece PC taken nextPC) cs = Inr s'"
      and "\<forall>c \<in> set cs. call_id c \<noteq> get_unique_inst_id seq_no piece"
  shows "unat (delta_cycles s' (lookup_or_insert (speculative_states s') (get_unique_inst_id seq_no piece)))
           = length (filter is_push cs) mod 256"
proof -
  let ?i = "get_unique_inst_id seq_no piece"
  let ?s1 = "history_update s seq_no piece PC taken nextPC"
  let ?n = "length (filter is_push cs)"
  from run_other_ids[OF assms]
  have a: "speculative_states s' ?i = speculative_states ?s1 ?i"
    and b: "pred_cycle s' = pred_cycle ?s1 + of_nat ?n" by auto
  have c: "state_pred_cycle (lookup_or_insert (speculative_states ?s1) ?i) = pred_cycle ?s1"
    by (simp add: history_update_def lookup_or_insert_def Let_def)
  have "delta_cycles s' (lookup_or_insert (speculative_states s') ?i) = (of_nat ?n :: u8)"
    using a b c by (simp add: delta_cycles_def lookup_or_insert_def)
  then show ?thesis
    by (simp add: unat_of_nat)
qed

section \<open>The history register under \<^verbatim>\<open>update\<close> and \<^verbatim>\<open>history_update\<close>\<close>

lemma update_ghr:
  assumes "update s seq_no piece PC resolveDir predDir nextPC = Inr s'"
  shows "rollback_ghr (ghr s)
           (unat (delta_cycles s (lookup_or_insert (speculative_states s) (get_unique_inst_id seq_no piece))))
           resolveDir predDir = Inr (ghr s')"
  using assms
  by (auto simp: update_def Let_def split: sum.splits if_splits prod.splits)

lemma update_ok:
  assumes "unat (delta_cycles s (lookup_or_insert (speculative_states s) (get_unique_inst_id seq_no piece)))
             < length (ghr s)"
  shows "\<exists>s'. update s seq_no piece PC resolveDir predDir nextPC = Inr s'"
  using assms
  by (auto simp: update_def Let_def rollback_ghr_def hash_skip_ok_def
           split: sum.splits if_splits prod.splits)

lemma rollback_ghr_length:
  "rollback_ghr hist d resolveDir predDir = Inr hist' \<Longrightarrow> length hist' = length hist"
  by (auto simp: rollback_ghr_def split: if_splits)

lemma length_push_ghr:
  "min (Suc (length hist)) (MAX_HISTORY + MAX_HISTORY_BUFFER) \<le> length (push_ghr hist b)"
  by (auto simp: push_ghr_def Let_def)

lemma length_push_ghr_any: "length (push_ghr hist b) = length (push_ghr hist b')"
  by (simp add: push_ghr_def Let_def)

lemma step_length_ghr:
  assumes "step s c = Inr s'"
  shows "length (ghr s') = (if is_push c then length (push_ghr (ghr s) undefined) else length (ghr s))"
proof (cases c)
  case (Predict x11 x12 x13 x14 x15)
  with assms show ?thesis by (auto simp: predict_def Let_def)
next
  case (HistoryUpdate x21 x22 x23 x24 x25)
  with assms show ?thesis
    using length_push_ghr_any[of "ghr s" x24 undefined] by (auto simp: history_update_def Let_def)
next
  case (Update x31 x32 x33 x34 x35 x36)
  with assms have "update s x31 x32 x33 x34 x35 x36 = Inr s'" by simp
  from rollback_ghr_length[OF update_ghr[OF this]] Update show ?thesis by simp
qed

lemma run_length_ghr:
  assumes "run s cs = Inr s'"
  shows "min (length (ghr s) + length (filter is_push cs)) (MAX_HISTORY + MAX_HISTORY_BUFFER)
           \<le> length (ghr s')"
  using assms
proof (induction cs arbitrary: s)
  case Nil then show ?case by simp
next
  case (Cons c cs)
  then obtain s1 where s1: "step s c = Inr s1" "run s1 cs = Inr s'"
    by (auto split: sum.splits)
  from step_length_ghr[OF s1(1)] length_push_ghr[of "ghr s" undefined]
  have "min (length (ghr s) + (if is_push c then 1 else 0)) (MAX_HISTORY + MAX_HISTORY_BUFFER)
          \<le> length (ghr s1)"
    by (auto split: if_splits)
  with Cons.IH[OF s1(2)] show ?case by (auto split: if_splits)
qed

lemma run_map_push:
  "length (ghr s) + length ks \<le> MAX_HISTORY + MAX_HISTORY_BUFFER \<Longrightarrow>
   \<exists>s'. run s (map (\<lambda>k. HistoryUpdate (f k) b c t d) ks) = Inr s'
        \<and> ghr s' = ghr s @ replicate (length ks) t"
proof (induction ks arbitrary: s)
  case Nil then show ?case by simp
next
  case (Cons k ks)
  let ?s1 = "history_update s (f k) b c t d"
  have g1: "ghr ?s1 = ghr s @ [t]" using Cons.prems
    by (simp add: history_update_def push_ghr_def Let_def)
  with Cons.prems have "length (ghr ?s1) + length ks \<le> MAX_HISTORY + MAX_HISTORY_BUFFER" by simp
  from Cons.IH[OF this] g1 show ?case by (auto simp: replicate_app_Cons_same)
qed

lemma id_piece0: "get_unique_inst_id x 0 = push_bit 4 x"
  by (simp add: get_unique_inst_id_def)

lemma other_ids: "k < 256 \<Longrightarrow> get_unique_inst_id (of_nat (k + 2)) 0 \<noteq> get_unique_inst_id 1 0"
proof
  assume k: "k < 256" and e: "get_unique_inst_id (of_nat (k + 2)) 0 = get_unique_inst_id 1 0"
  from e have "unat (push_bit 4 (of_nat (k + 2) :: u64)) = unat (push_bit 4 (1 :: u64))"
    by (simp add: id_piece0)
  moreover have "unat (push_bit 4 (of_nat (k + 2) :: u64)) = 16 * (k + 2)"
    using k by (simp add: push_bit_eq_mult unat_word_ariths unat_of_nat)
  ultimately show False by simp
qed

lemma other_pushes_ids: "\<forall>c \<in> set other_pushes. call_id c \<noteq> get_unique_inst_id 1 0"
proof
  fix c
  assume "c \<in> set other_pushes"
  then obtain k where k: "k < 256" and c: "c = HistoryUpdate (of_nat (k + 2)) 0 4104 True 4108"
    unfolding other_pushes_def by auto
  from other_ids[OF k] show "call_id c \<noteq> get_unique_inst_id 1 0"
    unfolding c call_id.simps .
qed

lemma after_256_pushes_update:
  "\<exists>s2 s3. after_256_pushes = Inr s2
      \<and> update s2 1 0 4096 False True 4100 = Inr s3
      \<and> ghr s2 = replicate 257 True
      \<and> ghr s3 = (replicate 257 True)[256 := False]"
proof -
  let ?s1 = "history_update SampleCondPredictor 1 0 4096 True 4100"
  have g1: "ghr ?s1 = [True]"
    by (simp add: history_update_def push_ghr_def Let_def SampleCondPredictor_def
          MAX_HISTORY_def MAX_HISTORY_BUFFER_def)
  then have "length (ghr ?s1) + length [0..<256] \<le> MAX_HISTORY + MAX_HISTORY_BUFFER"
    by (simp add: MAX_HISTORY_def MAX_HISTORY_BUFFER_def)
  from run_map_push[OF this, of "\<lambda>k. of_nat (k + 2)" 0 4104 True 4108] g1
  obtain s2 where s2: "run ?s1 other_pushes = Inr s2" "ghr s2 = replicate 257 True"
    by (auto simp: other_pushes_def replicate_app_Cons_same simp flip: replicate_Suc)
  have n: "length (filter is_push other_pushes) = 256"
    by (simp add: other_pushes_def comp_def)
  from delta_cycles_after_run[OF s2(1) other_pushes_ids]
  have d: "unat (delta_cycles s2 (lookup_or_insert (speculative_states s2) (get_unique_inst_id 1 0))) = 0"
    by (simp add: n)
  with update_ok[of s2 1 0 4096 False True 4100] s2(2)
  obtain s3 where s3: "update s2 1 0 4096 False True 4100 = Inr s3" by auto
  from update_ghr[OF s3] d s2(2) have "ghr s3 = (replicate 257 True)[256 := False]"
    by (simp add: rollback_ghr_def)
  with s2 s3 show ?thesis by (simp add: after_256_pushes_def)
qed

section \<open>Who pushed which bit\<close>

lemma owners_length:
  assumes "run s cs = Inr s'" "length os = length (ghr s)"
  shows "length (owners os cs) = length (ghr s')"
  using assms
proof (induction cs arbitrary: s os)
  case Nil
  then show ?case by simp
next
  case (Cons c cs)
  then obtain s1 where s1: "step s c = Inr s1" "run s1 cs = Inr s'"
    by (auto split: sum.splits)
  from step_length_ghr[OF s1(1)] Cons.prems(2)
  have "length (if is_push c then push_ghr os (call_id c) else os) = length (ghr s1)"
    by (simp add: push_ghr_def Let_def)
  from Cons.IH[OF s1(2) this] show ?case by simp
qed

lemma push_ghr_cases:
  "push_ghr os x = (if length os < MAX_HISTORY + MAX_HISTORY_BUFFER then os @ [x] else tl os @ [x])"
  by (cases os) (auto simp: push_ghr_def Let_def MAX_HISTORY_def MAX_HISTORY_BUFFER_def)

lemma push_ghr_keeps:
  assumes "m < length os" "m + 1 < MAX_HISTORY + MAX_HISTORY_BUFFER"
  shows "m + 1 < length (push_ghr os x)"
    and "push_ghr os x ! (length (push_ghr os x) - (m + 1) - 1) = os ! (length os - m - 1)"
proof -
  show "m + 1 < length (push_ghr os x)"
    using assms by (auto simp: push_ghr_cases)
  show "push_ghr os x ! (length (push_ghr os x) - (m + 1) - 1) = os ! (length os - m - 1)"
  proof (cases "length os < MAX_HISTORY + MAX_HISTORY_BUFFER")
    case True
    from assms(1) have "length os - Suc m < length os" by simp
    with True assms show ?thesis by (simp add: push_ghr_cases nth_append)
  next
    case False
    with assms have a: "length os - (m + 1) - 1 < length (tl os)"
      "Suc (length os - (m + 1) - 1) = length os - m - 1" by auto
    from False have "push_ghr os x ! (length (push_ghr os x) - (m + 1) - 1)
        = (tl os @ [x]) ! (length os - (m + 1) - 1)"
      using assms by (simp add: push_ghr_cases)
    also have "\<dots> = tl os ! (length os - (m + 1) - 1)" using a(1) by (simp add: nth_append)
    also have "\<dots> = os ! (length os - m - 1)" using a by (simp add: nth_tl)
    finally show ?thesis .
  qed
qed

lemma owners_position:
  assumes "\<forall>c \<in> set cs. call_id c \<noteq> i"
    and "m < length os" "os ! (length os - m - 1) = i"
    and "m + length (filter is_push cs) < MAX_HISTORY + MAX_HISTORY_BUFFER"
  shows "m + length (filter is_push cs) < length (owners os cs)
       \<and> owners os cs ! (length (owners os cs) - (m + length (filter is_push cs)) - 1) = i"
  using assms
proof (induction cs arbitrary: os m)
  case Nil
  then show ?case by simp
next
  case (Cons c cs)
  show ?case
  proof (cases "is_push c")
    case True
    from Cons.prems(4) True have b: "m + 1 < MAX_HISTORY + MAX_HISTORY_BUFFER" by simp
    note k = push_ghr_keeps[OF Cons.prems(2) b, of "call_id c"]
    from Cons.prems(4) True
    have "(m + 1) + length (filter is_push cs) < MAX_HISTORY + MAX_HISTORY_BUFFER" by simp
    from Cons.IH[OF _ k(1) _ this] k(2) Cons.prems(1,3) True show ?thesis by simp
  next
    case False
    with Cons.IH[OF _ Cons.prems(2,3)] Cons.prems(1,4) show ?thesis by simp
  qed
qed

lemma rollback_position_owner:
  assumes "run (history_update s seq_no piece PC0 taken nextPC0) cs = Inr s2"
      and "\<forall>c \<in> set cs. call_id c \<noteq> get_unique_inst_id seq_no piece"
      and "length (filter is_push cs) < 256"
      and "length os = length (ghr s)"
  shows "owners os (HistoryUpdate seq_no piece PC0 taken nextPC0 # cs)
           ! (length (ghr s2) - length (filter is_push cs) - 1) = get_unique_inst_id seq_no piece"
proof -
  let ?i = "get_unique_inst_id seq_no piece"
  let ?os1 = "push_ghr os ?i"
  have l: "length ?os1 = length (ghr (history_update s seq_no piece PC0 taken nextPC0))"
    using assms(4) by (simp add: history_update_def push_ghr_def Let_def)
  have a: "0 < length ?os1" "?os1 ! (length ?os1 - 0 - 1) = ?i"
    by (simp_all add: push_ghr_cases nth_append)
  from assms(3) have "0 + length (filter is_push cs) < MAX_HISTORY + MAX_HISTORY_BUFFER"
    by (simp add: MAX_HISTORY_def MAX_HISTORY_BUFFER_def)
  from owners_position[OF assms(2) a this] owners_length[OF assms(1) l]
  show ?thesis by simp
qed

section \<open>The rollback distance is a count modulo 256\<close>

text \<open>
  Claim C10. \<^verbatim>\<open>history_update\<close> records the cyclic counter in the checkpoint of its
  identity. After any further calls made for other identities, the distance that
  \<^verbatim>\<open>update\<close> computes for that identity is the number of \<^verbatim>\<open>history_update\<close> calls among
  them, modulo 256: it is the true number of intervening pushes exactly when fewer than 256
  intervene.
\<close>

theorem delta_cycles_is_push_count_mod_256:
  assumes "run (history_update s seq_no piece PC taken nextPC) cs = Inr s'"
      and "\<forall>c \<in> set cs. call_id c \<noteq> get_unique_inst_id seq_no piece"
  shows "unat (delta_cycles s' (lookup_or_insert (speculative_states s') (get_unique_inst_id seq_no piece)))
           = length (filter is_push cs) mod 256
       \<and> (unat (delta_cycles s' (lookup_or_insert (speculative_states s') (get_unique_inst_id seq_no piece)))
            = length (filter is_push cs) \<longleftrightarrow> length (filter is_push cs) < 256)"
  using delta_cycles_after_run[OF assms] by auto

text \<open>
  Two pushes and a prediction after the recorded push give distance 2; the 256 pushes of the
  scenario \<open>after_256_pushes\<close> give distance 0.
\<close>

theorem delta_cycles_is_push_count_mod_256_witness:
  "unat (delta_cycles
      (history_update (fst (predict (history_update (history_update SampleCondPredictor 1 0 4096 True 4100) 2 0 4104 True 4108) 3 0 4112 False 0)) 3 0 4112 True 4116)
      (lookup_or_insert (speculative_states
        (history_update (fst (predict (history_update (history_update SampleCondPredictor 1 0 4096 True 4100) 2 0 4104 True 4108) 3 0 4112 False 0)) 3 0 4112 True 4116))
        (get_unique_inst_id 1 0))) = 2
   \<and> \<not> isl after_256_pushes
   \<and> unat (delta_cycles (projr after_256_pushes)
             (lookup_or_insert (speculative_states (projr after_256_pushes)) (get_unique_inst_id 1 0))) = 0"
proof -
  have small: "unat (delta_cycles
      (history_update (fst (predict (history_update (history_update SampleCondPredictor 1 0 4096 True 4100) 2 0 4104 True 4108) 3 0 4112 False 0)) 3 0 4112 True 4116)
      (lookup_or_insert (speculative_states
        (history_update (fst (predict (history_update (history_update SampleCondPredictor 1 0 4096 True 4100) 2 0 4104 True 4108) 3 0 4112 False 0)) 3 0 4112 True 4116))
        (get_unique_inst_id 1 0))) = 2"
    using delta_cycles_is_push_count_mod_256
      [of SampleCondPredictor 1 0 4096 True 4100
        "[HistoryUpdate 2 0 4104 True 4108, Predict 3 0 4112 False 0, HistoryUpdate 3 0 4112 True 4116]"
        "history_update (fst (predict (history_update (history_update SampleCondPredictor 1 0 4096 True 4100) 2 0 4104 True 4108) 3 0 4112 False 0)) 3 0 4112 True 4116"]
    by (simp add: get_unique_inst_id_def)
  from after_256_pushes_update obtain s' where r: "after_256_pushes = Inr s'" by blast
  have n: "length (filter is_push other_pushes) = 256"
    by (simp add: other_pushes_def comp_def)
  from delta_cycles_is_push_count_mod_256[OF r[unfolded after_256_pushes_def] other_pushes_ids]
  have z: "unat (delta_cycles s' (lookup_or_insert (speculative_states s') (get_unique_inst_id 1 0))) = 0"
    by (simp add: n)
  have p: "projr after_256_pushes = s'" "\<not> isl after_256_pushes"
    by (simp_all add: r)
  from small z p(2) show ?thesis unfolding p(1) by blast
qed

section \<open>Rollback writes one bit\<close>

text \<open>
  Claim C1, as stated, for 256 intervening pushes. Identity \<open>(1, 0)\<close> pushed the bit at
  position 0 of a register that is now 257 bits long; the identities \<open>(2, 0)\<close> to
  \<open>(257, 0)\<close> pushed the 256 bits after it. The misprediction of \<open>(1, 0)\<close> is resolved:
  the bit at position \<open>length - 256 - 1\<close> keeps its value, and the newest bit, which was
  pushed by identity \<open>(257, 0)\<close>, is overwritten.
\<close>

theorem update_after_256_pushes_counterexample:
  "\<not> isl after_256_pushes
   \<and> \<not> isl (update (projr after_256_pushes) 1 0 4096 False True 4100)
   \<and> length (ghr (projr after_256_pushes)) = 257
   \<and> ghr (projr after_256_pushes) ! (257 - 256 - 1) = True
   \<and> ghr (projr (update (projr after_256_pushes) 1 0 4096 False True 4100)) ! (257 - 256 - 1) = True
   \<and> ghr (projr after_256_pushes) ! 256 = True
   \<and> ghr (projr (update (projr after_256_pushes) 1 0 4096 False True 4100)) ! 256 = False"
proof -
  from after_256_pushes_update obtain s2 s3 where
    a: "after_256_pushes = Inr s2" and b: "update s2 1 0 4096 False True 4100 = Inr s3"
    and c: "ghr s2 = replicate 257 True" and d: "ghr s3 = (replicate 257 True)[256 := False]"
    by blast
  have e: "projr after_256_pushes = s2" "\<not> isl after_256_pushes"
    by (simp_all add: a)
  have f: "projr (update s2 1 0 4096 False True 4100) = s3"
    "\<not> isl (update s2 1 0 4096 False True 4100)"
    by (simp_all add: b)
  have g: "ghr s2 ! 0 = True" "ghr s2 ! 256 = True" "length (ghr s2) = 257"
    by (simp_all add: c)
  have h: "ghr s3 ! 0 = True" "ghr s3 ! 256 = False"
    by (simp_all add: d nth_list_update)
  show ?thesis using e f g h by simp
qed

text \<open>
  Claim C1, amended. An identity pushes its bit; then calls are made for other identities,
  fewer than 256 of them \<^verbatim>\<open>history_update\<close> calls. Resolving the identity as mispredicted
  succeeds, and the register afterwards is the register before with the bit at position
  \<open>length - delta - 1\<close> set to the resolved direction, where \<open>delta\<close> is the number of
  intervening pushes: every other bit is as it was. That position is the one whose bit the
  identity pushed.
\<close>

theorem update_rewrites_one_bit:
  assumes "run (history_update s seq_no piece PC0 taken nextPC0) cs = Inr s2"
      and "\<forall>c \<in> set cs. call_id c \<noteq> get_unique_inst_id seq_no piece"
      and "length (filter is_push cs) < 256"
      and "resolveDir \<noteq> predDir"
      and "length os = length (ghr s)"
  shows "\<exists>s3. update s2 seq_no piece PC resolveDir predDir nextPC = Inr s3
           \<and> length (filter is_push cs) < length (ghr s2)
           \<and> ghr s3 = (ghr s2)[length (ghr s2) - length (filter is_push cs) - 1 := resolveDir]
           \<and> owners os (HistoryUpdate seq_no piece PC0 taken nextPC0 # cs)
                 ! (length (ghr s2) - length (filter is_push cs) - 1) = get_unique_inst_id seq_no piece"
proof -
  let ?i = "get_unique_inst_id seq_no piece"
  let ?n = "length (filter is_push cs)"
  let ?d = "unat (delta_cycles s2 (lookup_or_insert (speculative_states s2) ?i))"
  have d: "?d = ?n"
    using delta_cycles_after_run[OF assms(1,2)] assms(3) by simp
  have "1 \<le> length (ghr (history_update s seq_no piece PC0 taken nextPC0))"
    using length_push_ghr[of "ghr s" taken]
    by (simp add: history_update_def Let_def MAX_HISTORY_def MAX_HISTORY_BUFFER_def)
  with run_length_ghr[OF assms(1)] assms(3)
  have len: "?n < length (ghr s2)"
    by (simp add: MAX_HISTORY_def MAX_HISTORY_BUFFER_def)
  from update_ok[of s2 seq_no piece PC resolveDir predDir nextPC] d len
  obtain s3 where s3: "update s2 seq_no piece PC resolveDir predDir nextPC = Inr s3" by auto
  from update_ghr[OF s3] d len assms(4)
  have "ghr s3 = (ghr s2)[length (ghr s2) - ?n - 1 := resolveDir]"
    by (auto simp: rollback_ghr_def)
  with s3 len rollback_position_owner[OF assms(1,2,3,5)] show ?thesis by blast
qed

text \<open>
  Identity \<open>(1, 0)\<close> pushes taken, \<open>(2, 0)\<close> pushes taken, \<open>(3, 0)\<close> is predicted and pushes
  not-taken; \<open>(1, 0)\<close> resolves as not-taken: only the first of the three bits changes.
\<close>

theorem update_rewrites_one_bit_witness:
  "\<exists>s3. update (history_update (fst (predict (history_update (history_update SampleCondPredictor 1 0 4096 True 4100) 2 0 4104 True 4108) 3 0 4112 False 0)) 3 0 4112 False 4116)
           1 0 4096 False True 4100 = Inr s3
      \<and> ghr s3 = [False, True, False]
      \<and> owners [] [HistoryUpdate 1 0 4096 True 4100, HistoryUpdate 2 0 4104 True 4108,
                    Predict 3 0 4112 False 0, HistoryUpdate 3 0 4112 False 4116] ! 0
          = get_unique_inst_id 1 0"
  using update_rewrites_one_bit
    [of SampleCondPredictor 1 0 4096 True 4100
        "[HistoryUpdate 2 0 4104 True 4108, Predict 3 0 4112 False 0, HistoryUpdate 3 0 4112 False 4116]"
        "history_update (fst (predict (history_update (history_update SampleCondPredictor 1 0 4096 True 4100) 2 0 4104 True 4108) 3 0 4112 False 0)) 3 0 4112 False 4116"
        False True "[]" 4096 4100]
  by (simp add: get_unique_inst_id_def history_update_def predict_def push_ghr_def Let_def
        SampleCondPredictor_def MAX_HISTORY_def MAX_HISTORY_BUFFER_def)

section \<open>Memory budget\<close>

lemmas consts_defs = NUM_TAGGED_TABLES_def BASE_INDEX_BITS_def BASE_PRED_BITS_def MAX_HISTORY_def
  MAX_HISTORY_BUFFER_def TAGE_PRED_BITS_def TAGE_USEFUL_BITS_def USE_ALT_THRESHOLD_def
  RL_WEIGHTS_BITS_def LEARNING_RATE_def MAX_BYTES_def RESET_PERIOD_def

lemma tagged_bits_default:
  "sum_list (map (\<lambda>cfg. entries cfg * (tag_bits cfg + TAGE_PRED_BITS + TAGE_USEFUL_BITS))
                 TAGGED_CONFIGS) = 217600"
  by (simp add: TAGGED_CONFIGS_def mk_cfg_def entries_def TAGE_PRED_BITS_def TAGE_USEFUL_BITS_def)

lemma size_bits_default: "size_bits default_budget = 281808"
  by (simp add: size_bits_def default_budget_def tagged_bits_default)
     (simp add: consts_defs TAGGED_CONFIGS_def)

lemma size_bytes_eq: "size_bytes c = size_bits c div 8 + size_bits c mod 2"
  by (simp add: size_bytes_def drop_bit_eq_div and_one_eq)

lemma spec_size_bits_small: "spec_size_bits small_budget = 251040"
  by (simp add: spec_size_bits_def small_budget_def default_budget_def tagged_bits_default)
     (simp add: consts_defs)

lemma bytes_le: "(n::nat) \<le> 8 * b \<Longrightarrow> n div 8 + n mod 2 \<le> b"
proof -
  assume a: "n \<le> 8 * b"
  show ?thesis
  proof (cases "n = 8 * b")
    case True then show ?thesis by simp
  next
    case False
    with a have "n < 8 * b" by simp
    then have "n div 8 < b" by (simp add: less_mult_imp_div_less mult.commute)
    moreover have "n mod 2 \<le> 1" by simp
    ultimately show ?thesis by linarith
  qed
qed

lemma bytes_gt: "8 * (b + 1) \<le> (n::nat) \<Longrightarrow> \<not> n div 8 + n mod 2 \<le> b"
proof -
  assume "8 * (b + 1) \<le> n"
  then have "b + 1 \<le> n div 8" by simp
  then show ?thesis by simp
qed

text \<open>
  Claim C8, as stated, on the configuration of the source with a budget of 32000 bytes:
  history register, base table and tagged tables take 251040 bits, 31380 bytes, which is
  within the budget, and the check fails all the same, because the total of the source
  also counts the weight tables.
\<close>

theorem budget_without_weights_counterexample:
  "spec_size_bytes small_budget \<le> cfg_max_bytes small_budget
   \<and> check_memory_budget small_budget = Inl BudgetAssertion"
proof -
  have "size_bits small_budget = size_bits default_budget"
    by (simp add: size_bits_def small_budget_def)
  then have "size_bytes small_budget = 35226"
    by (simp add: size_bytes_eq size_bits_default)
  moreover have "cfg_max_bytes small_budget = 32000" by (simp add: small_budget_def)
  ultimately show ?thesis
    by (simp add: check_memory_budget_def spec_size_bytes_def spec_size_bits_small)
qed

text \<open>
  Claim C8, amended. The total \<open>size_bits\<close> is the sum over the history register with its
  rollback buffer, the base table, the weight tables and every tagged table. A
  configuration whose total is at most eight times the byte budget passes the check, and
  one whose total is at least eight times the budget plus eight fails the assertion.
\<close>

theorem check_memory_budget_bits:
  assumes "size_bits c \<le> 8 * cfg_max_bytes c \<or> 8 * (cfg_max_bytes c + 1) \<le> size_bits c"
  shows "check_memory_budget c = Inr () \<longleftrightarrow> size_bits c \<le> 8 * cfg_max_bytes c"
  using assms bytes_le[of "size_bits c" "cfg_max_bytes c"] bytes_gt[of "cfg_max_bytes c" "size_bits c"]
  by (auto simp: check_memory_budget_def size_bytes_eq)

text \<open>
  The configuration of the source takes 281808 bits and passes \<^verbatim>\<open>setup()\<close>; with a budget
  of 32000 bytes it fails.
\<close>

theorem check_memory_budget_bits_witness:
  "check_memory_budget default_budget = Inr () \<and> setup_predictor = Inr ()
   \<and> check_memory_budget small_budget \<noteq> Inr ()"
proof -
  have a: "cfg_max_bytes default_budget = 196608" by (simp add: default_budget_def MAX_BYTES_def)
  have b: "cfg_max_bytes small_budget = 32000" by (simp add: small_budget_def)
  have c: "size_bits small_budget = 281808"
    using size_bits_default by (simp add: size_bits_def small_budget_def)
  from check_memory_budget_bits[of default_budget] check_memory_budget_bits[of small_budget]
  show ?thesis by (simp add: a b c size_bits_default setup_predictor_def)
qed

section \<open>The cold predictor at program counter 0x1000\<close>

lemma upt_12: "[0..<12] = [0,1,2,3,4,5,6,7,8,9,10,11::nat]"
  by (simp add: upt_rec)

lemma length_TAGGED_CONFIGS: "length TAGGED_CONFIGS = 12"
  by (simp add: TAGGED_CONFIGS_def)

lemma cfgs:
  "TAGGED_CONFIGS ! 0 = mk_cfg 4 10 7" "TAGGED_CONFIGS ! 1 = mk_cfg 6 10 7"
  "TAGGED_CONFIGS ! Suc 0 = mk_cfg 6 10 7"
  "TAGGED_CONFIGS ! 2 = mk_cfg 10 11 8" "TAGGED_CONFIGS ! 3 = mk_cfg 16 11 8"
  "TAGGED_CONFIGS ! 4 = mk_cfg 25 11 9" "TAGGED_CONFIGS ! 5 = mk_cfg 40 11 10"
  "TAGGED_CONFIGS ! 6 = mk_cfg 64 10 11" "TAGGED_CONFIGS ! 7 = mk_cfg 101 10 12"
  "TAGGED_CONFIGS ! 8 = mk_cfg 160 10 12" "TAGGED_CONFIGS ! 9 = mk_cfg 254 9 13"
  "TAGGED_CONFIGS ! 10 = mk_cfg 403 9 14" "TAGGED_CONFIGS ! 11 = mk_cfg 640 9 15"
  by (simp_all add: TAGGED_CONFIGS_def)

lemma cold_ghr: "ghr SampleCondPredictor = []"
  by (simp add: SampleCondPredictor_def)

lemma cold_cycle: "pred_cycle SampleCondPredictor = 0"
  by (simp add: SampleCondPredictor_def)

lemma cold_states: "speculative_states SampleCondPredictor = Map.empty"
  by (simp add: SampleCondPredictor_def)

lemma cold_meta: "use_alt_on_na SampleCondPredictor = 8"
  by (simp add: SampleCondPredictor_def USE_ALT_THRESHOLD_def)

lemma cold_base: "base_table SampleCondPredictor = replicate 16384 0"
  by (simp add: SampleCondPredictor_def BASE_INDEX_BITS_def)

lemma cold_table: "i < 12 \<Longrightarrow> tagged_tables SampleCondPredictor ! i
    = replicate (entries (TAGGED_CONFIGS ! i)) \<lparr>tag = 0, ctr = 0, u = 0\<rparr>"
  by (simp add: SampleCondPredictor_def length_TAGGED_CONFIGS)

lemma cold_rl: "i < 12 \<Longrightarrow> rl_prediction SampleCondPredictor i = 0"
  by (simp add: rl_prediction_def SampleCondPredictor_def consts_defs)

lemma cold_order: "top_pred_idxs SampleCondPredictor = [0,1,2,3,4,5,6,7,8,9,10,11]"
  by (simp add: top_pred_idxs_def get_sorted_indices_def NUM_TAGGED_TABLES_def upt_12 cold_rl)

lemma compute_hash_empty: "compute_hash pc [] hl skip ob = pc AND (push_bit ob 1 - 1)"
  by (simp add: compute_hash_def)

lemma cold_idx0: "hash_idx (tagged_tables SampleCondPredictor) [] 4096 0 sk = 0"
  by (simp add: hash_idx_def compute_hash_empty cfgs mk_cfg_def)

lemma cold_idx1: "hash_idx (tagged_tables SampleCondPredictor) [] 4096 (Suc 0) sk = 0"
  by (simp add: hash_idx_def compute_hash_empty cfgs mk_cfg_def)

lemma cold_match0: "tag_match SampleCondPredictor 4096 0"
  by (simp add: tag_match_def cold_ghr cold_idx0 hash_tag_def compute_hash_empty cfgs mk_cfg_def
        cold_table entries_def)

lemma cold_match1: "tag_match SampleCondPredictor 4096 (Suc 0)"
  by (simp add: tag_match_def cold_ghr cold_idx1 hash_tag_def compute_hash_empty cfgs mk_cfg_def
        cold_table entries_def)

lemma cold_entry0: "entry_at SampleCondPredictor 4096 0 = \<lparr>tag = 0, ctr = 0, u = 0\<rparr>"
  by (simp add: entry_at_def cold_ghr cold_idx0 cold_table cfgs mk_cfg_def entries_def)

lemma cold_entry1: "entry_at SampleCondPredictor 4096 (Suc 0) = \<lparr>tag = 0, ctr = 0, u = 0\<rparr>"
  by (simp add: entry_at_def cold_ghr cold_idx1 cold_table cfgs mk_cfg_def entries_def)

lemma cold_predict_state:
  "predict_state SampleCondPredictor 4096 j =
     \<lparr>provider_table = 0, altpred = True, final_pred = True, state_pred_cycle = j,
      prediction = [0, 0, 0, 0, 0, 0, 0, 0, 0, 0, 0, 0]\<rparr>"
  by (simp add: predict_state_def Let_def cold_order cold_match0 cold_match1 cold_entry0 cold_entry1
        use_alt_def cold_base cold_meta USE_ALT_THRESHOLD_def NUM_TAGGED_TABLES_def upt_12 cold_rl)

section \<open>What \<^verbatim>\<open>update\<close> leaves alone, and when it completes\<close>

lemma update_ok_correct:
  assumes "unat (delta_cycles s (lookup_or_insert (speculative_states s) (get_unique_inst_id seq_no piece)))
             \<le> length (ghr s)"
  shows "\<exists>s'. update s seq_no piece PC resolveDir resolveDir nextPC = Inr s'"
  using assms
  by (auto simp: update_def Let_def rollback_ghr_def hash_skip_ok_def
           split: sum.splits if_splits prod.splits)

lemma update_frame:
  assumes "update s seq_no piece PC resolveDir predDir nextPC = Inr s'"
  shows "pred_cycle s' = pred_cycle s"
    and "speculative_states s' = (speculative_states s)(get_unique_inst_id seq_no piece := None)"
  using assms
  by (auto simp: update_def Let_def split: sum.splits if_splits prod.splits)

lemma update_value_init:
  assumes "speculative_states s (get_unique_inst_id seq_no piece) = None"
  shows "update (s\<lparr>speculative_states := (speculative_states s)(get_unique_inst_id seq_no piece \<mapsto> value_init_state)\<rparr>)
           seq_no piece PC resolveDir predDir nextPC
         = update s seq_no piece PC resolveDir predDir nextPC"
proof -
  let ?i = "get_unique_inst_id seq_no piece"
  let ?s = "s\<lparr>speculative_states := (speculative_states s)(?i \<mapsto> value_init_state)\<rparr>"
  have m: "(speculative_states s)(?i := None) = speculative_states s"
    using assms by (rule_tac ext) simp
  have l: "lookup_or_insert ((speculative_states s)(?i \<mapsto> value_init_state)) ?i
             = lookup_or_insert (speculative_states s) ?i"
    using assms by (simp add: lookup_or_insert_def)
  have t: "update_tables ?s = update_tables s"
    by (intro ext) (simp add: update_tables_def Let_def split: prod.splits)
  show ?thesis
    by (simp add: update_def l t Let_def delta_cycles_def m split: sum.splits prod.splits)
qed

lemma update_isl_value_init:
  assumes "speculative_states s (get_unique_inst_id seq_no piece) = None"
  shows "isl (update s seq_no piece PC resolveDir predDir nextPC) \<longleftrightarrow>
           \<not> (if resolveDir = predDir then unat (pred_cycle s) \<le> length (ghr s)
              else unat (pred_cycle s) < length (ghr s))"
  using assms
  by (auto simp: update_def Let_def rollback_ghr_def hash_skip_ok_def lookup_or_insert_def
        delta_cycles_def value_init_state_def split: prod.splits)

lemma double_update_ok: "\<exists>s'. run SampleCondPredictor double_update = Inr s'"
proof -
  let ?i = "get_unique_inst_id 1 0"
  let ?s1 = "fst (predict SampleCondPredictor 1 0 4096 False 0)"
  let ?s2 = "history_update ?s1 1 0 4096 True 4100"
  have c2: "pred_cycle ?s2 = 1" by (simp add: history_update_def predict_def Let_def cold_cycle)
  have g2: "ghr ?s2 = [True]"
    by (simp add: history_update_def predict_def Let_def cold_ghr push_ghr_def
          MAX_HISTORY_def MAX_HISTORY_BUFFER_def)
  have d2: "delta_cycles ?s2 (lookup_or_insert (speculative_states ?s2) ?i) = 0"
    by (simp add: history_update_def Let_def lookup_or_insert_def delta_cycles_def)
  from update_ok[of ?s2 1 0 4096 True True 4100] d2 g2
  obtain s3 where s3: "update ?s2 1 0 4096 True True 4100 = Inr s3" by auto
  from update_frame[OF s3] c2 have c3: "pred_cycle s3 = 1" "speculative_states s3 ?i = None"
    by simp_all
  from update_ghr[OF s3] g2 have g3: "ghr s3 = [True]" by (simp add: rollback_ghr_def)
  have d3: "unat (delta_cycles s3 (lookup_or_insert (speculative_states s3) ?i)) = 1"
    using c3 by (simp add: lookup_or_insert_def delta_cycles_def value_init_state_def)
  from update_ok_correct[of s3 1 0 4096 True 4100] d3 g3
  obtain s4 where s4: "update s3 1 0 4096 True True 4100 = Inr s4" by auto
  from s3 s4 show ?thesis by (simp add: double_update_def)
qed

section \<open>Resolution without a checkpoint\<close>

text \<open>
  Claim C2, as stated, on the cold predictor: \<^verbatim>\<open>update\<close> for identity \<open>(7, 0)\<close>, which was
  never predicted, completes; and in the run that predicts identity \<open>(1, 0)\<close>, pushes its bit
  and resolves it twice, the second \<^verbatim>\<open>update\<close> completes as well.
\<close>

theorem update_without_checkpoint_counterexample:
  "\<not> isl (update SampleCondPredictor 7 0 4096 True True 4100)
   \<and> \<not> isl (run SampleCondPredictor double_update)"
proof -
  have "unat (delta_cycles SampleCondPredictor
          (lookup_or_insert (speculative_states SampleCondPredictor) (get_unique_inst_id 7 0)))
        \<le> length (ghr SampleCondPredictor)"
    by (simp add: cold_states cold_cycle cold_ghr lookup_or_insert_def delta_cycles_def
          value_init_state_def)
  from update_ok_correct[OF this, of 4096 True 4100] double_update_ok
  show ?thesis by auto
qed

text \<open>
  Claim C2, amended. When no checkpoint is stored for the identity, \<^verbatim>\<open>update\<close> makes no
  contract check: the lookup inserts a zero-initialised checkpoint (provider table 0,
  alternate not taken, cycle 0), so the call returns what it returns on the same state with
  that checkpoint stored. It completes exactly when the history accesses that this
  checkpoint implies are in range, and it leaves the checkpoint store as it was, so a
  second \<^verbatim>\<open>update\<close> with the same identity is served the same way.
\<close>

theorem update_without_checkpoint:
  assumes "speculative_states s (get_unique_inst_id seq_no piece) = None"
  shows "update s seq_no piece PC resolveDir predDir nextPC
           = update (s\<lparr>speculative_states :=
                         (speculative_states s)(get_unique_inst_id seq_no piece \<mapsto> value_init_state)\<rparr>)
                 seq_no piece PC resolveDir predDir nextPC
         \<and> (isl (update s seq_no piece PC resolveDir predDir nextPC) \<longleftrightarrow>
              \<not> (if resolveDir = predDir then unat (pred_cycle s) \<le> length (ghr s)
                 else unat (pred_cycle s) < length (ghr s)))
         \<and> (\<forall>s'. update s seq_no piece PC resolveDir predDir nextPC = Inr s'
                \<longrightarrow> speculative_states s' = speculative_states s)"
proof -
  let ?i = "get_unique_inst_id seq_no piece"
  have m: "(speculative_states s)(?i := None) = speculative_states s"
    using assms by (rule_tac ext) simp
  have "\<forall>s'. update s seq_no piece PC resolveDir predDir nextPC = Inr s'
                \<longrightarrow> speculative_states s' = speculative_states s"
    using update_frame(2) m by metis
  with update_value_init[OF assms, of PC resolveDir predDir nextPC]
    update_isl_value_init[OF assms, of PC resolveDir predDir nextPC]
  show ?thesis by simp
qed

theorem update_without_checkpoint_witness:
  "update SampleCondPredictor 7 0 4096 True True 4100
     = update (SampleCondPredictor\<lparr>speculative_states := [get_unique_inst_id 7 0 \<mapsto> value_init_state]\<rparr>)
         7 0 4096 True True 4100
   \<and> \<not> isl (update SampleCondPredictor 7 0 4096 True True 4100)
   \<and> isl (update SampleCondPredictor 7 0 4096 False True 4100)"
proof -
  have n: "speculative_states SampleCondPredictor (get_unique_inst_id 7 0) = None"
    by (simp add: cold_states)
  note t = update_without_checkpoint[OF n, of 4096 True True 4100]
  note f = update_without_checkpoint[OF n, of 4096 False True 4100]
  from t have a: "update SampleCondPredictor 7 0 4096 True True 4100
     = update (SampleCondPredictor\<lparr>speculative_states := [get_unique_inst_id 7 0 \<mapsto> value_init_state]\<rparr>)
         7 0 4096 True True 4100"
    unfolding cold_states by (rule conjunct1)
  from t have "isl (update SampleCondPredictor 7 0 4096 True True 4100) \<longleftrightarrow>
      \<not> (if True = True then unat (pred_cycle SampleCondPredictor) \<le> length (ghr SampleCondPredictor)
         else unat (pred_cycle SampleCondPredictor) < length (ghr SampleCondPredictor))"
    by blast
  then have b: "\<not> isl (update SampleCondPredictor 7 0 4096 True True 4100)"
    by (simp add: cold_cycle cold_ghr)
  from f have "isl (update SampleCondPredictor 7 0 4096 False True 4100) \<longleftrightarrow>
      \<not> (if False = True then unat (pred_cycle SampleCondPredictor) \<le> length (ghr SampleCondPredictor)
         else unat (pred_cycle SampleCondPredictor) < length (ghr SampleCondPredictor))"
    by blast
  then have c: "isl (update SampleCondPredictor 7 0 4096 False True 4100)"
    by (simp add: cold_cycle cold_ghr)
  from a b c show ?thesis by blast
qed

section \<open>Resolution after a prediction and no history update\<close>

text \<open>
  Claim C9. The cold predictor predicts identity \<open>(1, 0)\<close> at program counter 0x1000 and
  \<^verbatim>\<open>history_update\<close> is not called for it. The checkpoint holds whatever value the
  uninitialised cycle field had. Resolving the branch as mispredicted writes
  \<^verbatim>\<open>ghr[0 - delta_cycles - 1]\<close> into the empty register, whatever that value; resolving
  it as predicted walks the hash iterator off the register unless the value happens to
  be 0.
\<close>

theorem update_after_predict_only:
  "update (fst (predict SampleCondPredictor 1 0 4096 tage_pred uninit)) 1 0 4096 False True nextPC
     = Inl GhrIndexOutOfRange
   \<and> (isl (update (fst (predict SampleCondPredictor 1 0 4096 tage_pred uninit)) 1 0 4096 True True nextPC)
        \<longleftrightarrow> uninit \<noteq> 0)"
proof -
  let ?s1 = "fst (predict SampleCondPredictor 1 0 4096 tage_pred uninit)"
  let ?st = "lookup_or_insert (speculative_states ?s1) (get_unique_inst_id 1 0)"
  have g: "ghr ?s1 = []" by (simp add: predict_def Let_def cold_ghr)
  have st: "?st = predict_state SampleCondPredictor 4096 uninit"
    by (simp add: predict_def Let_def lookup_or_insert_def)
  have d: "delta_cycles ?s1 ?st = - uninit"
    unfolding st by (simp add: delta_cycles_def cold_predict_state predict_def Let_def cold_cycle)
  have p: "provider_table ?st = 0" unfolding st by (simp add: cold_predict_state)
  have a: "update ?s1 1 0 4096 False True nextPC = Inl GhrIndexOutOfRange"
    by (simp add: update_def Let_def g rollback_ghr_def)
  have b: "isl (update ?s1 1 0 4096 True True nextPC) \<longleftrightarrow> uninit \<noteq> 0"
    by (simp add: update_def Let_def g rollback_ghr_def p d hash_skip_ok_def unat_gt_0 unat_0_iff
          split: prod.splits)
  from a b show ?thesis by blast
qed

section \<open>The scan for provider and alternate\<close>

lemma find_tables_alt:
  "provider_table st \<noteq> -1 \<Longrightarrow>
   find_tables s PC is st =
     (case find (tag_match s PC) is of None \<Rightarrow> st
      | Some a \<Rightarrow> st\<lparr>altpred := (ctr (entry_at s PC a) \<ge> 0)\<rparr>)"
  by (induction "is") auto

lemma find_tables_provider:
  "provider_table st = -1 \<Longrightarrow>
   find_tables s PC is st =
     (case find (tag_match s PC) is of None \<Rightarrow> st
      | Some p \<Rightarrow>
          (case find (tag_match s PC) (tl (dropWhile (\<lambda>i. \<not> tag_match s PC i) is)) of
             None \<Rightarrow> st\<lparr>provider_table := int p, final_pred := (ctr (entry_at s PC p) \<ge> 0)\<rparr>
           | Some a \<Rightarrow> st\<lparr>provider_table := int p, final_pred := (ctr (entry_at s PC p) \<ge> 0),
                           altpred := (ctr (entry_at s PC a) \<ge> 0)\<rparr>))"
proof (induction "is")
  case Nil
  then show ?case by simp
next
  case (Cons i "is")
  show ?case
  proof (cases "tag_match s PC i")
    case True
    have "provider_table (st\<lparr>provider_table := int i, final_pred := (ctr (entry_at s PC i) \<ge> 0)\<rparr>) \<noteq> -1"
      by simp
    from find_tables_alt[OF this, of s PC "is"] True Cons.prems
    show ?thesis by (simp split: option.splits)
  next
    case False
    with Cons show ?thesis by (simp cong: option.case_cong)
  qed
qed

lemma top_pred_idxs_perm:
  "set (top_pred_idxs s) = {0..<NUM_TAGGED_TABLES} \<and> distinct (top_pred_idxs s)
   \<and> sorted (map (\<lambda>i. - rl_prediction s i) (top_pred_idxs s))"
proof -
  let ?arr = "map (rl_prediction s) [0..<NUM_TAGGED_TABLES]"
  have a: "set (top_pred_idxs s) = {0..<NUM_TAGGED_TABLES}" "distinct (top_pred_idxs s)"
    by (simp_all add: top_pred_idxs_def get_sorted_indices_def)
  have "sorted (map (\<lambda>i. - (?arr ! i)) (top_pred_idxs s))"
    unfolding top_pred_idxs_def get_sorted_indices_def by (rule sorted_sort_key)
  moreover have "map (\<lambda>i. - (?arr ! i)) (top_pred_idxs s) = map (\<lambda>i. - rl_prediction s i) (top_pred_idxs s)"
    using a(1) by (intro map_cong) auto
  ultimately show ?thesis using a by simp
qed

lemma predict_state_scan:
  "predict_state s PC j =
     use_alt s PC
       (let st = \<lparr>provider_table = -1,
                  altpred = (base_table s ! (unat PC mod length (base_table s)) \<ge> 0),
                  final_pred = (base_table s ! (unat PC mod length (base_table s)) \<ge> 0),
                  state_pred_cycle = j,
                  prediction = map (rl_prediction s) [0..<NUM_TAGGED_TABLES]\<rparr>
        in case find (tag_match s PC) (top_pred_idxs s) of None \<Rightarrow> st
      | Some p \<Rightarrow>
          (case find (tag_match s PC) (tl (dropWhile (\<lambda>i. \<not> tag_match s PC i) (top_pred_idxs s))) of
             None \<Rightarrow> st\<lparr>provider_table := int p, final_pred := (ctr (entry_at s PC p) \<ge> 0)\<rparr>
           | Some a \<Rightarrow> st\<lparr>provider_table := int p, final_pred := (ctr (entry_at s PC p) \<ge> 0),
                           altpred := (ctr (entry_at s PC a) \<ge> 0)\<rparr>))"
  unfolding predict_state_def Let_def
  by (subst find_tables_provider) simp_all

lemma predict_state_altpred:
  "altpred (predict_state s PC uninit)
       = (case find (tag_match s PC) (tl (dropWhile (\<lambda>i. \<not> tag_match s PC i) (top_pred_idxs s))) of
            None \<Rightarrow> base_table s ! (unat PC mod length (base_table s)) \<ge> 0
          | Some a \<Rightarrow> ctr (entry_at s PC a) \<ge> 0)"
proof (cases "find (tag_match s PC) (top_pred_idxs s)")
  case None
  then have e: "dropWhile (\<lambda>i. \<not> tag_match s PC i) (top_pred_idxs s) = []"
    by (simp add: find_None_iff)
  show ?thesis unfolding e
    by (simp add: predict_state_scan use_alt_def Let_def None)
next
  case (Some p)
  then show ?thesis
    by (simp add: predict_state_scan use_alt_def Let_def split: option.splits)
qed

lemma entries_pos: "0 < entries cfg" by (simp add: entries_def)

lemma cold_tables_entry:
  assumes "tagged_tables s = tagged_tables SampleCondPredictor" "i < 12"
  shows "tagged_tables s ! i ! hash_idx (tagged_tables s) hist PC i sk = \<lparr>tag = 0, ctr = 0, u = 0\<rparr>"
  using assms entries_pos[of "TAGGED_CONFIGS ! i"]
  by (simp add: cold_table hash_idx_def)

lemma cold_tables_match:
  assumes "tagged_tables s = tagged_tables SampleCondPredictor" "i < 12"
  shows "tag_match s PC i \<longleftrightarrow> hash_tag (ghr s) PC i 0 = 0"
    and "entry_at s PC i = \<lparr>tag = 0, ctr = 0, u = 0\<rparr>"
  using cold_tables_entry[OF assms] by (auto simp: tag_match_def entry_at_def)

lemma hash_tag_4096:
  "hash_tag [] 4096 0 0 = 0" "hash_tag [] 4096 (Suc 0) 0 = 0" "hash_tag [] 4096 1 0 = 0"
  "hash_tag [] 4096 8 0 = 0"
  "hash_tag [] 4096 9 0 \<noteq> 0" "hash_tag [] 4096 10 0 \<noteq> 0" "hash_tag [] 4096 11 0 \<noteq> 0"
  by (simp_all add: hash_tag_def compute_hash_empty cfgs mk_cfg_def)

lemma biased_fields:
  "tagged_tables biased_predictor = tagged_tables SampleCondPredictor"
  "ghr biased_predictor = []"
  "base_table biased_predictor = replicate 16384 0"
  "use_alt_on_na biased_predictor = 8"
  by (simp_all add: biased_predictor_def cold_ghr cold_base cold_meta)

lemma biased_rl:
  "i < 12 \<Longrightarrow> rl_prediction biased_predictor i = (if i = 1 then 1 else 0)"
  by (simp add: rl_prediction_def biased_fields)
     (simp add: biased_predictor_def SampleCondPredictor_def consts_defs nth_list_update)

lemma biased_order: "top_pred_idxs biased_predictor = [1,0,2,3,4,5,6,7,8,9,10,11]"
  by (simp add: top_pred_idxs_def get_sorted_indices_def NUM_TAGGED_TABLES_def upt_12 biased_rl)

lemma biased_provider: "provider_table (predict_state biased_predictor 4096 j) = 1"
  by (simp add: predict_state_scan biased_order use_alt_def Let_def
        cold_tables_match[OF biased_fields(1)] biased_fields(2) hash_tag_4096 split: option.splits)

lemma biased_longest: "find (tag_match biased_predictor 4096) [11,10,9,8,7,6,5,4,3,2,1,0] = Some 8"
  by (simp add: cold_tables_match[OF biased_fields(1)] biased_fields(2) hash_tag_4096)

lemma cold_longest: "find (tag_match SampleCondPredictor 4096) [11,10,9,8,7,6,5,4,3,2,1,0] = Some 8"
  by (simp add: cold_tables_match[OF refl] cold_ghr hash_tag_4096)

lemma trained_fields:
  "ghr trained_predictor = []"
  "base_table trained_predictor = replicate 16384 0"
  "use_alt_on_na trained_predictor = 8"
  "weights trained_predictor = weights SampleCondPredictor"
  by (simp_all add: trained_predictor_def cold_ghr cold_base cold_meta)

lemma trained_rl: "rl_prediction trained_predictor = rl_prediction SampleCondPredictor"
  by (rule ext) (simp add: rl_prediction_def trained_fields cold_ghr)

lemma trained_order: "top_pred_idxs trained_predictor = [0,1,2,3,4,5,6,7,8,9,10,11]"
  using cold_order by (simp add: top_pred_idxs_def trained_rl)

lemma trained_idx: "hash_idx (tagged_tables trained_predictor) [] 4096 0 sk = 0"
  "hash_idx (tagged_tables trained_predictor) [] 4096 (Suc 0) sk = 0"
  by (simp_all add: hash_idx_def compute_hash_empty cfgs mk_cfg_def)

lemma trained_entries:
  "entry_at trained_predictor 4096 0 = \<lparr>tag = 0, ctr = -3, u = 0\<rparr>"
  "entry_at trained_predictor 4096 (Suc 0) = \<lparr>tag = 0, ctr = 0, u = 0\<rparr>"
  by (simp_all add: entry_at_def trained_fields trained_idx)
     (simp_all add: trained_predictor_def SampleCondPredictor_def TAGGED_CONFIGS_def mk_cfg_def entries_def)

lemma trained_match: "tag_match trained_predictor 4096 0" "tag_match trained_predictor 4096 (Suc 0)"
  using trained_entries
  by (simp_all add: tag_match_def entry_at_def trained_fields hash_tag_4096)

lemma trained_predict_state:
  "predict_state trained_predictor 4096 j =
     \<lparr>provider_table = 0, altpred = True, final_pred = False, state_pred_cycle = j,
      prediction = map (rl_prediction trained_predictor) [0..<NUM_TAGGED_TABLES]\<rparr>"
  by (simp add: predict_state_def Let_def trained_order trained_match trained_entries
        use_alt_def trained_fields)

lemma tage_good_alt_find:
  "tage_good_alt s PC js st =
     (case find (tag_match s PC) js of None \<Rightarrow> st
      | Some a \<Rightarrow> st\<lparr>altpred := (ctr (entry_at s PC a) \<ge> 0)\<rparr>)"
  by (induction js) auto

lemma tage_good_scan_upto:
  "tage_good_scan s PC (rev [0..<n]) st =
     (case find (tag_match s PC) (rev [0..<n]) of None \<Rightarrow> st
      | Some p \<Rightarrow>
          (case find (tag_match s PC) (rev [0..<p]) of
             None \<Rightarrow> st\<lparr>provider_table := int p, final_pred := (ctr (entry_at s PC p) \<ge> 0)\<rparr>
           | Some a \<Rightarrow> st\<lparr>provider_table := int p, final_pred := (ctr (entry_at s PC p) \<ge> 0),
                           altpred := (ctr (entry_at s PC a) \<ge> 0)\<rparr>))"
proof (induction n)
  case 0
  then show ?case by simp
next
  case (Suc n)
  show ?case
  proof (cases "tag_match s PC n")
    case True
    then show ?thesis by (simp add: tage_good_alt_find split: option.splits)
  next
    case False
    with Suc show ?thesis by simp
  qed
qed

lemma tage_good_scan_longest_first:
  "provider_table (tage_good_scan s PC (rev [0..<NUM_TAGGED_TABLES]) st) =
     (case find (tag_match s PC) (rev [0..<NUM_TAGGED_TABLES]) of
        None \<Rightarrow> provider_table st | Some p \<Rightarrow> int p)"
  by (simp add: tage_good_scan_upto split: option.splits)

text \<open>
  Claim C3, as stated, on two states at program counter 0x1000 with an empty history. Tables
  0 to 8 match there (the cold tag 0 equals the hashed tag), so a scan from the longest
  history to the shortest stops at table 8. With the bias weight of table 1 at 1, table 1
  has the highest score and is the provider; in the cold predictor all scores are equal
  and table 0 is the provider.
\<close>

theorem provider_not_longest_counterexample:
  "find (tag_match biased_predictor 4096) [11,10,9,8,7,6,5,4,3,2,1,0] = Some 8
   \<and> provider_table (predict_state biased_predictor 4096 0) = 1
   \<and> find (tag_match SampleCondPredictor 4096) [11,10,9,8,7,6,5,4,3,2,1,0] = Some 8
   \<and> provider_table (predict_state SampleCondPredictor 4096 0) = 0"
  using biased_longest biased_provider cold_longest by (simp add: cold_predict_state)

text \<open>
  Claim C3, amended. \<^verbatim>\<open>predict\<close> scans the tagged tables in the order of
  \<open>top_pred_idxs\<close>, a permutation of the table numbers by descending score. The first
  table in that order whose slot carries the hashed tag is the provider; the first one
  after it that matches gives the alternate prediction; when no table matches, the provider
  is the sentinel \<open>-1\<close> and both the final and the alternate prediction are the base
  predictor's output.
\<close>

theorem predict_scans_in_score_order:
  "set (top_pred_idxs s) = {0..<NUM_TAGGED_TABLES} \<and> distinct (top_pred_idxs s)
   \<and> sorted (map (\<lambda>i. - rl_prediction s i) (top_pred_idxs s))
   \<and> provider_table (predict_state s PC uninit)
       = (case find (tag_match s PC) (top_pred_idxs s) of None \<Rightarrow> -1 | Some p \<Rightarrow> int p)
   \<and> altpred (predict_state s PC uninit)
       = (case find (tag_match s PC) (tl (dropWhile (\<lambda>i. \<not> tag_match s PC i) (top_pred_idxs s))) of
            None \<Rightarrow> base_table s ! (unat PC mod length (base_table s)) \<ge> 0
          | Some a \<Rightarrow> ctr (entry_at s PC a) \<ge> 0)
   \<and> (case find (tag_match s PC) (top_pred_idxs s) of
         None \<Rightarrow> final_pred (predict_state s PC uninit)
                   = (base_table s ! (unat PC mod length (base_table s)) \<ge> 0)
       | Some p \<Rightarrow> True)"
proof -
  have b: "provider_table (predict_state s PC uninit)
       = (case find (tag_match s PC) (top_pred_idxs s) of None \<Rightarrow> -1 | Some p \<Rightarrow> int p)"
    by (simp add: predict_state_scan use_alt_def Let_def split: option.splits)
  note c = predict_state_altpred[of s PC uninit]
  have d: "(case find (tag_match s PC) (top_pred_idxs s) of
         None \<Rightarrow> final_pred (predict_state s PC uninit)
                   = (base_table s ! (unat PC mod length (base_table s)) \<ge> 0)
       | Some p \<Rightarrow> True)"
    by (simp add: predict_state_scan use_alt_def Let_def split: option.splits)
  from top_pred_idxs_perm[of s] b c d show ?thesis by blast
qed

section \<open>The predicted bit\<close>

text \<open>
  Claim C5. When a tagged table provides the prediction, its slot matched, and the bit that
  \<^verbatim>\<open>predict\<close> returns is the sign of the provider's counter (taken when the counter is
  at least 0), unless the counter is \<open>-1\<close>, \<open>0\<close> or \<open>1\<close> and the meta-counter is at or above
  its threshold: then the alternate prediction is returned, which is the sign of the counter
  of the next matching table in the scan order, or the base prediction when there is none.
\<close>

theorem predict_bit:
  assumes "provider_table (predict_state s PC uninit) \<noteq> -1"
  shows "tag_match s PC (nat (provider_table (predict_state s PC uninit)))
       \<and> snd (predict s seq_no piece PC tage_pred uninit) =
           (if \<bar>ctr (entry_at s PC (nat (provider_table (predict_state s PC uninit))))\<bar> \<le> 1
               \<and> USE_ALT_THRESHOLD \<le> use_alt_on_na s
            then altpred (predict_state s PC uninit)
            else 0 \<le> ctr (entry_at s PC (nat (provider_table (predict_state s PC uninit)))))
       \<and> altpred (predict_state s PC uninit) =
           (case find (tag_match s PC) (tl (dropWhile (\<lambda>i. \<not> tag_match s PC i) (top_pred_idxs s))) of
              None \<Rightarrow> base_table s ! (unat PC mod length (base_table s)) \<ge> 0
            | Some a \<Rightarrow> ctr (entry_at s PC a) \<ge> 0)"
proof (cases "find (tag_match s PC) (top_pred_idxs s)")
  case None
  with assms show ?thesis
    by (simp add: predict_state_scan use_alt_def Let_def)
next
  case (Some p)
  then have m: "tag_match s PC p" by (auto simp: find_Some_iff)
  from Some m have "tag_match s PC (nat (provider_table (predict_state s PC uninit)))
       \<and> snd (predict s seq_no piece PC tage_pred uninit) =
           (if \<bar>ctr (entry_at s PC (nat (provider_table (predict_state s PC uninit))))\<bar> \<le> 1
               \<and> USE_ALT_THRESHOLD \<le> use_alt_on_na s
            then altpred (predict_state s PC uninit)
            else 0 \<le> ctr (entry_at s PC (nat (provider_table (predict_state s PC uninit)))))"
    by (simp add: predict_def predict_state_scan use_alt_def Let_def split: option.splits)
  with predict_state_altpred[of s PC uninit] show ?thesis by blast
qed

text \<open>
  In the cold predictor the provider's counter is 0 and the meta-counter is at the
  threshold, so the alternate bit, taken, is returned; with the provider's counter at
  \<open>-3\<close> its sign, not taken, is returned although the alternate says taken.
\<close>

theorem predict_bit_witness:
  "snd (predict SampleCondPredictor 1 0 4096 False 0) = True
   \<and> snd (predict trained_predictor 1 0 4096 False 0) = False"
proof -
  have "provider_table (predict_state SampleCondPredictor 4096 0) \<noteq> -1"
    by (simp add: cold_predict_state)
  from predict_bit[OF this, of 1 0 False]
  have a: "snd (predict SampleCondPredictor 1 0 4096 False 0) = True"
    by (simp add: cold_predict_state cold_entry0 cold_meta USE_ALT_THRESHOLD_def)
  have "provider_table (predict_state trained_predictor 4096 0) \<noteq> -1"
    by (simp add: trained_predict_state)
  from predict_bit[OF this, of 1 0 False]
  have b: "snd (predict trained_predictor 1 0 4096 False 0) = False"
    by (simp add: trained_predict_state trained_entries)
  from a b show ?thesis by simp
qed

section \<open>First prediction and resolution on the cold predictor\<close>

lemma update_Inr:
  assumes "update s seq_no piece PC resolveDir predDir nextPC = Inr s'"
  shows "\<exists>hist tabs ws bt.
     rollback_ghr (ghr s)
        (unat (delta_cycles s (lookup_or_insert (speculative_states s) (get_unique_inst_id seq_no piece))))
        resolveDir predDir = Inr hist
     \<and> update_tables s hist (lookup_or_insert (speculative_states s) (get_unique_inst_id seq_no piece))
          (unat (delta_cycles s (lookup_or_insert (speculative_states s) (get_unique_inst_id seq_no piece))))
          PC resolveDir predDir = (tabs, ws, bt)
     \<and> base_table s' = bt \<and> weights s' = ws
     \<and> tagged_tables s' = (if (reset_counter s + 1) mod 2 ^ 32 \<ge> RESET_PERIOD then age_useful tabs else tabs)
     \<and> ghr s' = hist
     \<and> use_alt_on_na s' = update_use_alt (use_alt_on_na s)
           (lookup_or_insert (speculative_states s) (get_unique_inst_id seq_no piece)) resolveDir predDir"
  using assms
  by (auto simp: update_def Let_def split: sum.splits if_splits prod.splits)

lemma hash_loop_quiet: "hash_loop h (replicate k False) b ob = h"
  by (induction k arbitrary: h b) simp_all

lemma compute_hash_quiet:
  "compute_hash pc (replicate k False) hl sk ob = pc AND (push_bit ob 1 - 1)"
  by (simp add: compute_hash_def hash_loop_quiet)

lemma quiet_idx:
  "hash_idx tabs (replicate k False) 4096 0 sk = 0"
  "hash_idx tabs (replicate k False) 4096 (Suc 0) sk = 0"
  by (simp_all add: hash_idx_def compute_hash_quiet cfgs mk_cfg_def)

lemma quiet_tag:
  "hash_tag (replicate k False) 4096 0 sk = 0"
  "hash_tag (replicate k False) 4096 (Suc 0) sk = 0"
  by (simp_all add: hash_tag_def compute_hash_quiet cfgs mk_cfg_def)

lemma quiet_rl:
  assumes "weights s = weights SampleCondPredictor" "i < 12"
  shows "rl_prediction s i = 0"
proof -
  have w: "weights s ! i ! j = 0" if "j < 641" for j
    using assms that by (simp add: SampleCondPredictor_def consts_defs)
  have "map (\<lambda>j. if ghr s ! j then weights s ! i ! j else - (weights s ! i ! j))
            [0..<min MAX_HISTORY (length (ghr s))]
        = map (\<lambda>j. 0) [0..<min MAX_HISTORY (length (ghr s))]"
    by (rule map_cong) (auto simp: w MAX_HISTORY_def)
  then have z: "sum_list (map (\<lambda>j. if ghr s ! j then weights s ! i ! j else - (weights s ! i ! j))
            [0..<min MAX_HISTORY (length (ghr s))]) = 0"
    by (simp only: sum_list_0)
  have "length (weights s ! i) = 641"
    using assms by (simp add: SampleCondPredictor_def consts_defs)
  then show ?thesis unfolding rl_prediction_def z by (simp add: w)
qed

lemma quiet_order:
  assumes "weights s = weights SampleCondPredictor"
  shows "top_pred_idxs s = [0,1,2,3,4,5,6,7,8,9,10,11]"
  by (simp add: top_pred_idxs_def get_sorted_indices_def NUM_TAGGED_TABLES_def upt_12
        quiet_rl[OF assms])

lemma quiet_predict_state:
  assumes "ghr s = replicate k False" "weights s = weights SampleCondPredictor"
    and "tagged_tables s ! 0 ! 0 = \<lparr>tag = 0, ctr = c, u = v\<rparr>"
    and "tagged_tables s ! Suc 0 ! 0 = \<lparr>tag = 0, ctr = c1, u = v1\<rparr>"
  shows "predict_state s 4096 j =
     \<lparr>provider_table = 0, altpred = (0 \<le> c1),
      final_pred = (if \<bar>c\<bar> \<le> 1 \<and> USE_ALT_THRESHOLD \<le> use_alt_on_na s then 0 \<le> c1 else 0 \<le> c),
      state_pred_cycle = j,
      prediction = map (rl_prediction s) [0..<NUM_TAGGED_TABLES]\<rparr>"
proof -
  have e: "entry_at s 4096 0 = \<lparr>tag = 0, ctr = c, u = v\<rparr>"
    "entry_at s 4096 (Suc 0) = \<lparr>tag = 0, ctr = c1, u = v1\<rparr>"
    by (simp_all add: entry_at_def assms quiet_idx)
  have m: "tag_match s 4096 0" "tag_match s 4096 (Suc 0)"
    by (simp_all add: tag_match_def assms quiet_idx quiet_tag)
  show ?thesis
    by (simp add: predict_state_def Let_def quiet_order[OF assms(2)] m e use_alt_def)
qed

lemma cold_scenario_slots:
  assumes "tagged_tables s = (tagged_tables SampleCondPredictor)
             [0 := (tagged_tables SampleCondPredictor ! 0)[0 := e]]"
  shows "tagged_tables s ! 0 ! 0 = e"
    and "tagged_tables s ! Suc 0 ! 0 = \<lparr>tag = 0, ctr = 0, u = 0\<rparr>"
    and "length (tagged_tables s) = 12"
    and "length (tagged_tables s ! 0) = 1024"
    and "length (tagged_tables s ! Suc 0) = 1024"
  using assms
  by (simp_all add: SampleCondPredictor_def TAGGED_CONFIGS_def mk_cfg_def entries_def)

lemma set_ctr_fields:
  "ghr (set_ctr s PC i c) = ghr s" "weights (set_ctr s PC i c) = weights s"
  "use_alt_on_na (set_ctr s PC i c) = use_alt_on_na s"
  by (simp_all add: set_ctr_def)

lemma set_ctr_slots:
  assumes "ghr s = []"
    and "tagged_tables s = (tagged_tables SampleCondPredictor)
             [0 := (tagged_tables SampleCondPredictor ! 0)[0 := e]]"
  shows "tagged_tables (set_ctr s 4096 (Suc 0) c) ! 0 ! 0 = e"
    and "tagged_tables (set_ctr s 4096 (Suc 0) c) ! Suc 0 ! 0 = \<lparr>tag = 0, ctr = c, u = 0\<rparr>"
    and "tagged_tables (set_ctr s 4096 0 c) ! 0 ! 0 = e\<lparr>ctr := c\<rparr>"
    and "tagged_tables (set_ctr s 4096 0 c) ! Suc 0 ! 0 = \<lparr>tag = 0, ctr = 0, u = 0\<rparr>"
proof -
  have g: "ghr s = replicate 0 False" using assms(1) by simp
  note sl = cold_scenario_slots[OF assms(2)]
  have i: "hash_idx (tagged_tables s) (ghr s) 4096 (Suc 0) 0 = 0"
    "hash_idx (tagged_tables s) (ghr s) 4096 0 0 = 0"
    unfolding g by (rule quiet_idx)+
  have en: "entry_at s 4096 (Suc 0) = \<lparr>tag = 0, ctr = 0, u = 0\<rparr>" "entry_at s 4096 0 = e"
    by (simp_all add: entry_at_def i sl)
  show "tagged_tables (set_ctr s 4096 (Suc 0) c) ! 0 ! 0 = e"
    by (simp add: set_ctr_def sl)
  show "tagged_tables (set_ctr s 4096 (Suc 0) c) ! Suc 0 ! 0 = \<lparr>tag = 0, ctr = c, u = 0\<rparr>"
    by (simp add: set_ctr_def i en sl)
  show "tagged_tables (set_ctr s 4096 0 c) ! 0 ! 0 = e\<lparr>ctr := c\<rparr>"
    by (simp add: set_ctr_def i en sl)
  show "tagged_tables (set_ctr s 4096 0 c) ! Suc 0 ! 0 = \<lparr>tag = 0, ctr = 0, u = 0\<rparr>"
    by (simp add: set_ctr_def sl)
qed

lemma cold_scenario_update:
  assumes "update (fst (predict SampleCondPredictor 1 0 4096 tage_pred uninit)) 1 0 4096 True True nextPC
             = Inr s2"
  shows "base_table s2 = base_table SampleCondPredictor"
    and "weights s2 = weights SampleCondPredictor"
    and "tagged_tables s2 = (tagged_tables SampleCondPredictor)
         [0 := (tagged_tables SampleCondPredictor ! 0)[0 := \<lparr>tag = 0, ctr = 1, u = 0\<rparr>]]"
    and "ghr s2 = []"
    and "use_alt_on_na s2 = 8"
proof -
  let ?s1 = "fst (predict SampleCondPredictor 1 0 4096 tage_pred uninit)"
  let ?st = "lookup_or_insert (speculative_states ?s1) (get_unique_inst_id 1 0)"
  have st: "?st = predict_state SampleCondPredictor 4096 uninit"
    by (simp add: predict_def Let_def lookup_or_insert_def)
  have f: "ghr ?s1 = []" "tagged_tables ?s1 = tagged_tables SampleCondPredictor"
    "weights ?s1 = weights SampleCondPredictor" "base_table ?s1 = base_table SampleCondPredictor"
    "use_alt_on_na ?s1 = 8" "reset_counter ?s1 = 0"
    by (simp_all add: predict_def Let_def cold_ghr cold_meta) (simp add: SampleCondPredictor_def)
  have t: "update_tables ?s1 [] ?st d 4096 True True
      = (update_provider (tagged_tables SampleCondPredictor) [] 4096 d 0 True True True,
         weights SampleCondPredictor, base_table SampleCondPredictor)" for d
    unfolding st by (simp add: update_tables_def Let_def cold_predict_state f)
  have i: "hash_idx (tagged_tables SampleCondPredictor) [] 4096 0 d = 0" for d by (rule cold_idx0)
  have up: "update_provider (tagged_tables SampleCondPredictor) [] 4096 d 0 True True True
     = (tagged_tables SampleCondPredictor)
         [0 := (tagged_tables SampleCondPredictor ! 0)[0 := \<lparr>tag = 0, ctr = 1, u = 0\<rparr>]]" for d
    by (simp add: update_provider_def Let_def cold_idx0 cold_table cfgs mk_cfg_def entries_def
        update_ctr_def update_useful_def TAGE_PRED_BITS_def)
  from update_Inr[OF assms] obtain hist tabs ws bt where
    h: "rollback_ghr (ghr ?s1) (unat (delta_cycles ?s1 ?st)) True True = Inr hist"
    and u: "update_tables ?s1 hist ?st (unat (delta_cycles ?s1 ?st)) 4096 True True = (tabs, ws, bt)"
    and r: "base_table s2 = bt" "weights s2 = ws"
       "tagged_tables s2 = (if (reset_counter ?s1 + 1) mod 2 ^ 32 \<ge> RESET_PERIOD then age_useful tabs else tabs)"
       "ghr s2 = hist"
       "use_alt_on_na s2 = update_use_alt (use_alt_on_na ?s1) ?st True True"
    by blast
  from h have hist: "hist = []" by (simp add: rollback_ghr_def f)
  from u have "tabs = (tagged_tables SampleCondPredictor)
         [0 := (tagged_tables SampleCondPredictor ! 0)[0 := \<lparr>tag = 0, ctr = 1, u = 0\<rparr>]]"
    "ws = weights SampleCondPredictor" "bt = base_table SampleCondPredictor"
    unfolding hist t up by simp_all
  with r hist show "base_table s2 = base_table SampleCondPredictor"
    and "weights s2 = weights SampleCondPredictor"
    and "tagged_tables s2 = (tagged_tables SampleCondPredictor)
         [0 := (tagged_tables SampleCondPredictor ! 0)[0 := \<lparr>tag = 0, ctr = 1, u = 0\<rparr>]]"
    and "ghr s2 = []"
    by (simp_all add: f RESET_PERIOD_def)
  show "use_alt_on_na s2 = 8"
    unfolding r(5) st by (simp add: update_use_alt_def cold_predict_state f)
qed


lemma cold_scenario_ok:
  "\<exists>s2. update (fst (predict SampleCondPredictor 1 0 4096 tage_pred 0)) 1 0 4096 True True nextPC = Inr s2"
proof -
  let ?s1 = "fst (predict SampleCondPredictor 1 0 4096 tage_pred 0)"
  have "delta_cycles ?s1 (lookup_or_insert (speculative_states ?s1) (get_unique_inst_id 1 0)) = 0"
    by (simp add: predict_def Let_def lookup_or_insert_def delta_cycles_def cold_predict_state cold_cycle)
  with update_ok_correct[of ?s1 1 0 4096 True nextPC] show ?thesis by simp
qed

text \<open>
  Claim C6, as stated: the first prediction at program counter 0x1000 is taken, not
  not-taken, and after the resolution as taken the base counter of that program counter
  is what it was, 0.
\<close>

theorem cold_scenario_counterexample:
  "snd (predict SampleCondPredictor 1 0 4096 False 0) = True
   \<and> \<not> isl (update (fst (predict SampleCondPredictor 1 0 4096 False 0)) 1 0 4096 True True 4100)
   \<and> base_table (projr (update (fst (predict SampleCondPredictor 1 0 4096 False 0)) 1 0 4096 True True 4100))
        ! (unat (4096 :: u64) mod 2 ^ BASE_INDEX_BITS) = 0
   \<and> base_table SampleCondPredictor ! (unat (4096 :: u64) mod 2 ^ BASE_INDEX_BITS) = 0"
proof -
  from cold_scenario_ok[of False 4100] obtain s2 where
    u: "update (fst (predict SampleCondPredictor 1 0 4096 False 0)) 1 0 4096 True True 4100 = Inr s2"
    by blast
  have p: "projr (update (fst (predict SampleCondPredictor 1 0 4096 False 0)) 1 0 4096 True True 4100) = s2"
    "\<not> isl (update (fst (predict SampleCondPredictor 1 0 4096 False 0)) 1 0 4096 True True 4100)"
    by (simp_all add: u)
  have b: "base_table s2 ! (unat (4096 :: u64) mod 2 ^ BASE_INDEX_BITS) = 0"
    "base_table SampleCondPredictor ! (unat (4096 :: u64) mod 2 ^ BASE_INDEX_BITS) = 0"
    by (simp_all add: cold_scenario_update(1)[OF u] cold_base BASE_INDEX_BITS_def)
  have a: "snd (predict SampleCondPredictor 1 0 4096 False 0) = True"
    by (simp add: predict_def Let_def cold_predict_state)
  show ?thesis unfolding p using a b p(2) by simp
qed

text \<open>
  Claim C6, amended. On the cold predictor, \<^verbatim>\<open>predict\<close> for sequence number 1, piece 0
  and program counter 0x1000 returns taken: the cold slots of the tagged tables carry tag 0,
  which is the hashed tag of this program counter, so table 0 is the provider with counter
  0, and 0 reads as taken. When the \<^verbatim>\<open>update\<close> with resolved direction taken that
  follows completes, the base table and the history are unchanged and the provider's counter
  has gone from 0 to 1. A second \<^verbatim>\<open>predict\<close> for the program counter returns taken
  again, and the bit it returns is the alternate prediction, not the sign of the updated
  counter: table 0 is still the provider, its counter 1 is weak and the meta-counter is at
  its threshold, so the bit is the sign of the counter in the slot of table 1, which the
  \<^verbatim>\<open>update\<close> did not touch. With that counter alone set to another value \<open>c\<close> the
  returned bit is the sign of \<open>c\<close>; with the provider's counter alone set to \<open>-1\<close> the
  returned bit is still taken.
\<close>

theorem cold_scenario:
  "snd (predict SampleCondPredictor 1 0 4096 tage_pred uninit) = True
   \<and> provider_table (predict_state SampleCondPredictor 4096 uninit) = 0
   \<and> ctr (entry_at SampleCondPredictor 4096 0) = 0
   \<and> (\<forall>s2. update (fst (predict SampleCondPredictor 1 0 4096 tage_pred uninit)) 1 0 4096 True True nextPC
              = Inr s2 \<longrightarrow>
          base_table s2 = base_table SampleCondPredictor
          \<and> ghr s2 = ghr SampleCondPredictor
          \<and> ctr (entry_at s2 4096 0) = 1
          \<and> snd (predict s2 seq_no piece 4096 tage_pred' uninit') = True
          \<and> provider_table (predict_state s2 4096 uninit') = 0
          \<and> \<bar>ctr (entry_at s2 4096 0)\<bar> \<le> 1 \<and> USE_ALT_THRESHOLD \<le> use_alt_on_na s2
          \<and> snd (predict s2 seq_no piece 4096 tage_pred' uninit') = altpred (predict_state s2 4096 uninit')
          \<and> altpred (predict_state s2 4096 uninit') = (0 \<le> ctr (entry_at s2 4096 1))
          \<and> entry_at s2 4096 1 = entry_at SampleCondPredictor 4096 1
          \<and> (\<forall>c. snd (predict (set_ctr s2 4096 1 c) seq_no piece 4096 tage_pred' uninit') = (0 \<le> c))
          \<and> snd (predict (set_ctr s2 4096 0 (- 1)) seq_no piece 4096 tage_pred' uninit') = True)"
proof -
  have a: "snd (predict SampleCondPredictor 1 0 4096 tage_pred uninit) = True"
    by (simp add: predict_def Let_def cold_predict_state)
  have b: "provider_table (predict_state SampleCondPredictor 4096 uninit) = 0"
    by (simp add: cold_predict_state)
  have c: "ctr (entry_at SampleCondPredictor 4096 0) = 0" by (simp add: cold_entry0)
  have d: "base_table s2 = base_table SampleCondPredictor
          \<and> ghr s2 = ghr SampleCondPredictor
          \<and> ctr (entry_at s2 4096 0) = 1
          \<and> snd (predict s2 seq_no piece 4096 tage_pred' uninit') = True
          \<and> provider_table (predict_state s2 4096 uninit') = 0
          \<and> \<bar>ctr (entry_at s2 4096 0)\<bar> \<le> 1 \<and> USE_ALT_THRESHOLD \<le> use_alt_on_na s2
          \<and> snd (predict s2 seq_no piece 4096 tage_pred' uninit') = altpred (predict_state s2 4096 uninit')
          \<and> altpred (predict_state s2 4096 uninit') = (0 \<le> ctr (entry_at s2 4096 1))
          \<and> entry_at s2 4096 1 = entry_at SampleCondPredictor 4096 1
          \<and> (\<forall>c. snd (predict (set_ctr s2 4096 1 c) seq_no piece 4096 tage_pred' uninit') = (0 \<le> c))
          \<and> snd (predict (set_ctr s2 4096 0 (- 1)) seq_no piece 4096 tage_pred' uninit') = True"
    if u: "update (fst (predict SampleCondPredictor 1 0 4096 tage_pred uninit)) 1 0 4096 True True nextPC
              = Inr s2" for s2
  proof -
    note f = cold_scenario_update[OF u]
    have g: "ghr s2 = replicate 0 False" by (simp add: f(4))
    note sl = cold_scenario_slots[OF f(3)]
    note ps = quiet_predict_state[OF g f(2) sl(1) sl(2), of uninit']
    have i: "hash_idx (tagged_tables s2) (ghr s2) 4096 0 0 = 0"
      "hash_idx (tagged_tables s2) (ghr s2) 4096 (Suc 0) 0 = 0"
      unfolding g by (rule quiet_idx)+
    have e0: "entry_at s2 4096 0 = \<lparr>tag = 0, ctr = 1, u = 0\<rparr>"
      by (simp add: entry_at_def i sl)
    have e1: "entry_at s2 4096 (Suc 0) = \<lparr>tag = 0, ctr = 0, u = 0\<rparr>"
      by (simp add: entry_at_def i sl)
    have p: "snd (predict s2 seq_no piece 4096 tage_pred' uninit') = True"
      by (simp add: predict_def Let_def ps)
    have g': "ghr (set_ctr s2 4096 i c) = replicate 0 False" for i c
      by (simp add: set_ctr_fields f(4))
    have w': "weights (set_ctr s2 4096 i c) = weights SampleCondPredictor" for i c
      by (simp add: set_ctr_fields f(2))
    note ss = set_ctr_slots[OF f(4) f(3)]
    have q: "snd (predict (set_ctr s2 4096 1 c) seq_no piece 4096 tage_pred' uninit') = (0 \<le> c)" for c
      using quiet_predict_state[OF g' w' ss(1) ss(2), of c uninit']
      by (simp add: predict_def Let_def set_ctr_fields f(5) USE_ALT_THRESHOLD_def)
    have s3: "tagged_tables (set_ctr s2 4096 0 c) ! 0 ! 0 = \<lparr>tag = 0, ctr = c, u = 0\<rparr>" for c
      using ss(3)[of c] by simp
    have r: "snd (predict (set_ctr s2 4096 0 (- 1)) seq_no piece 4096 tage_pred' uninit') = True"
      using quiet_predict_state[OF g' w' s3 ss(4), of "- 1" uninit']
      by (simp add: predict_def Let_def set_ctr_fields f(5) USE_ALT_THRESHOLD_def)
    show ?thesis
      using p q r by (simp add: f cold_ghr e0 e1 cold_entry1 ps USE_ALT_THRESHOLD_def)
  qed
  from a b c d show ?thesis by blast
qed

text \<open>
  The resolution completes when the cycle field of the checkpoint happens to hold 0. The
  second prediction is then taken; with the counter of table 1 at \<open>-1\<close> it would be not
  taken.
\<close>

theorem cold_scenario_witness:
  "\<exists>s2. update (fst (predict SampleCondPredictor 1 0 4096 False 0)) 1 0 4096 True True 4100 = Inr s2
      \<and> base_table s2 = base_table SampleCondPredictor
      \<and> ctr (entry_at s2 4096 0) = 1
      \<and> snd (predict s2 2 0 4096 False 0) = True
      \<and> snd (predict (set_ctr s2 4096 1 (- 1)) 2 0 4096 False 0) = False"
proof -
  from cold_scenario_ok[of False 4100] obtain s2 where
    u: "update (fst (predict SampleCondPredictor 1 0 4096 False 0)) 1 0 4096 True True 4100 = Inr s2"
    by blast
  from cold_scenario[of False 0 4100 2 0 False 0] u
  have "base_table s2 = base_table SampleCondPredictor"
    and "ctr (entry_at s2 4096 0) = 1"
    and "snd (predict s2 2 0 4096 False 0) = True"
    and "\<forall>c. snd (predict (set_ctr s2 4096 1 c) 2 0 4096 False 0) = (0 \<le> c)"
    by blast+
  with u show ?thesis by simp
qed

section \<open>Allocation on a misprediction\<close>

lemma hist_len_ascending: "sorted_wrt (<) (map hist_len TAGGED_CONFIGS)"
  by (simp add: TAGGED_CONFIGS_def mk_cfg_def)

lemma alloc_loop_find:
  "alloc_loop tabs hist PC delta resolveDir ks =
     (case find (free_slot tabs hist PC delta) ks of
        None \<Rightarrow> (tabs, NUM_TAGGED_TABLES)
      | Some k \<Rightarrow> (tabs[k := (tabs ! k)[hash_idx tabs hist PC k delta := fresh_entry hist PC delta k resolveDir]], k))"
  by (induction ks) (auto simp: Let_def free_slot_def fresh_entry_def)

lemma update_tables_mispredict:
  assumes "resolveDir \<noteq> predDir"
  shows "fst (update_tables s hist state delta PC resolveDir predDir) =
     (if provider_table state = -1 then tagged_tables s
      else spec_allocate
             (update_provider (tagged_tables s) hist PC delta (nat (provider_table state)) (altpred state)
                resolveDir predDir)
             hist PC delta resolveDir (nat (provider_table state)))"
  using assms
  by (auto simp: update_tables_def Let_def alloc_loop_find spec_allocate_def split: option.splits)

lemma compute_hash_one_false:
  "compute_hash pc [False] hl 0 ob = pc AND (push_bit ob 1 - 1)"
  by (cases hl) (simp_all add: compute_hash_def)

lemma find_upt_first: "P a \<Longrightarrow> a < b \<Longrightarrow> find P [a..<b] = Some a"
  by (simp add: upt_conv_Cons)

lemma hash_tag_4097:
  "hash_tag [] 4097 0 0 \<noteq> 0" "hash_tag [] 4097 (Suc 0) 0 \<noteq> 0" "hash_tag [] 4097 2 0 \<noteq> 0"
  "hash_tag [] 4097 3 0 \<noteq> 0" "hash_tag [] 4097 4 0 \<noteq> 0" "hash_tag [] 4097 5 0 \<noteq> 0"
  "hash_tag [] 4097 6 0 \<noteq> 0" "hash_tag [] 4097 7 0 \<noteq> 0" "hash_tag [] 4097 8 0 \<noteq> 0"
  "hash_tag [] 4097 9 0 \<noteq> 0" "hash_tag [] 4097 10 0 \<noteq> 0" "hash_tag [] 4097 11 0 \<noteq> 0"
  by (simp_all add: hash_tag_def compute_hash_empty cfgs mk_cfg_def)

lemma cold_4097_provider: "provider_table (predict_state SampleCondPredictor 4097 j) = -1"
  by (simp add: predict_state_scan cold_order use_alt_def Let_def
        cold_tables_match[OF refl] cold_ghr hash_tag_4097)

lemma pushed_once:
  fixes PC :: u64 and nextPC :: u64
  defines "s2 \<equiv> history_update (fst (predict SampleCondPredictor 1 0 PC False 0)) 1 0 PC True nextPC"
  shows "ghr s2 = [True]" "tagged_tables s2 = tagged_tables SampleCondPredictor"
    "reset_counter s2 = 0" "base_table s2 = base_table SampleCondPredictor"
    "lookup_or_insert (speculative_states s2) (get_unique_inst_id 1 0)
       = (predict_state SampleCondPredictor PC 0)\<lparr>state_pred_cycle := 1\<rparr>"
    "pred_cycle s2 = 1"
  unfolding s2_def
  by (simp_all add: history_update_def predict_def Let_def cold_ghr cold_cycle push_ghr_def
        MAX_HISTORY_def MAX_HISTORY_BUFFER_def lookup_or_insert_def delta_cycles_def)
     (simp add: SampleCondPredictor_def)

lemma base_mispredict_run:
  "\<exists>s'. run SampleCondPredictor base_mispredict = Inr s'
      \<and> tagged_tables s' = tagged_tables SampleCondPredictor"
proof -
  let ?s2 = "history_update (fst (predict SampleCondPredictor 1 0 4097 False 0)) 1 0 4097 True 4101"
  note f = pushed_once[of 4097 4101]
  let ?st = "lookup_or_insert (speculative_states ?s2) (get_unique_inst_id 1 0)"
  have p: "provider_table ?st = -1" by (simp add: f(5) cold_4097_provider)
  have "unat (delta_cycles ?s2 ?st) < length (ghr ?s2)" by (simp add: f delta_cycles_def)
  from update_ok[OF this, of 4097 False True 4101]
  obtain s' where s': "update ?s2 1 0 4097 False True 4101 = Inr s'" by blast
  from update_Inr[OF s'] obtain hist tabs ws bt where
    u: "update_tables ?s2 hist ?st (unat (delta_cycles ?s2 ?st)) 4097 False True = (tabs, ws, bt)"
    and t: "tagged_tables s' = (if (reset_counter ?s2 + 1) mod 2 ^ 32 \<ge> RESET_PERIOD then age_useful tabs else tabs)"
    by blast
  from u have "tabs = fst (update_tables ?s2 hist ?st (unat (delta_cycles ?s2 ?st)) 4097 False True)"
    by simp
  then have "tabs = tagged_tables SampleCondPredictor"
    by (simp add: update_tables_mispredict p f(2))
  with t have "tagged_tables s' = tagged_tables SampleCondPredictor"
    by (simp add: f(3) RESET_PERIOD_def)
  with s' show ?thesis by (simp add: base_mispredict_def)
qed

text \<open>
  Claim C4, as stated, at program counter 0x1001 on the cold predictor: no table matches,
  the base predictor provides, the prediction taken is resolved as not taken, the slot of
  table 0 is free, and the tagged tables after \<^verbatim>\<open>update\<close> are the cold tables.
\<close>

theorem no_allocation_from_base_counterexample:
  "\<not> isl (run SampleCondPredictor base_mispredict)
   \<and> provider_table (predict_state SampleCondPredictor 4097 0) = -1
   \<and> free_slot (tagged_tables SampleCondPredictor) [False] 4097 0 0
   \<and> tagged_tables (projr (run SampleCondPredictor base_mispredict)) = tagged_tables SampleCondPredictor"
proof -
  from base_mispredict_run obtain s' where
    r: "run SampleCondPredictor base_mispredict = Inr s'"
    and t: "tagged_tables s' = tagged_tables SampleCondPredictor" by blast
  have p: "projr (run SampleCondPredictor base_mispredict) = s'"
    "\<not> isl (run SampleCondPredictor base_mispredict)" by (simp_all add: r)
  have f: "free_slot (tagged_tables SampleCondPredictor) [False] 4097 0 0"
    by (simp add: free_slot_def cold_tables_entry[OF refl])
  show ?thesis unfolding p(1) using p(2) t f cold_4097_provider by simp
qed

lemma update_mispredict_isl:
  assumes "resolveDir \<noteq> predDir"
    and "\<not> unat (delta_cycles s (lookup_or_insert (speculative_states s) (get_unique_inst_id seq_no piece)))
             < length (ghr s)"
  shows "update s seq_no piece PC resolveDir predDir nextPC = Inl GhrIndexOutOfRange"
  using assms by (simp add: update_def Let_def rollback_ghr_def)

lemma update_tables_base:
  assumes "provider_table state = -1"
  shows "update_tables s hist state delta PC resolveDir predDir
           = (tagged_tables s, weights s, update_base (base_table s) PC resolveDir)"
  using assms by (simp add: update_tables_def)

lemma update_base_eq:
  "update_base bt PC r =
     bt[unat PC mod length bt :=
          (if r then min (bt ! (unat PC mod length bt) + 1) 1
           else max (bt ! (unat PC mod length bt) - 1) (- 2))]"
  by (simp add: update_base_def Let_def BASE_PRED_BITS_def)

lemma update_tables_tagged_base:
  assumes "provider_table state \<noteq> -1"
  shows "snd (snd (update_tables s hist state delta PC resolveDir predDir)) = base_table s"
  using assms by (simp add: update_tables_def Let_def split: prod.splits)

text \<open>
  Claim C4, amended. On a misprediction the rollback writes the history at distance
  \<open>delta\<close> from its end. When \<open>delta\<close> is smaller than the length of the history the call
  completes, whether or not a slot is free. When a tagged table was the provider, the tables
  above it (which have longer histories, see \<open>hist_len_ascending\<close>) are scanned in ascending
  order and the first free slot takes the fresh entry; when none is free the tables keep the
  provider's update only, and the base table is not changed. When the base predictor was
  the provider there is no allocation: the base counter in the slot of
  the program counter goes one down, stopping at \<open>-2\<close>, when the branch was not taken and
  one up, stopping at 1, when it was, and the tagged tables, the weights and the meta-counter
  are not changed. The periodic halving of the usefulness counters comes after. When
  \<open>delta\<close> is not smaller than the length of the history, the rollback writes outside the
  register and the call does not complete.
\<close>

theorem update_allocates:
  assumes "resolveDir \<noteq> predDir"
  shows "let state = lookup_or_insert (speculative_states s) (get_unique_inst_id seq_no piece);
             delta = unat (delta_cycles s state)
         in if delta < length (ghr s) then
              (\<exists>s'. update s seq_no piece PC resolveDir predDir nextPC = Inr s'
                 \<and> tagged_tables s' =
                     (let tabs = (if provider_table state = -1 then tagged_tables s
                                  else spec_allocate
                                         (update_provider (tagged_tables s) (ghr s') PC delta
                                            (nat (provider_table state)) (altpred state) resolveDir predDir)
                                         (ghr s') PC delta resolveDir (nat (provider_table state)))
                      in if (reset_counter s + 1) mod 2 ^ 32 \<ge> RESET_PERIOD then age_useful tabs else tabs)
                 \<and> base_table s' =
                     (if provider_table state = -1
                      then (base_table s)[unat PC mod length (base_table s) :=
                             (if resolveDir
                              then min (base_table s ! (unat PC mod length (base_table s)) + 1) 1
                              else max (base_table s ! (unat PC mod length (base_table s)) - 1) (- 2))]
                      else base_table s)
                 \<and> (provider_table state = -1 \<longrightarrow>
                       weights s' = weights s \<and> use_alt_on_na s' = use_alt_on_na s))
            else update s seq_no piece PC resolveDir predDir nextPC = Inl GhrIndexOutOfRange"
proof -
  let ?st = "lookup_or_insert (speculative_states s) (get_unique_inst_id seq_no piece)"
  let ?d = "unat (delta_cycles s ?st)"
  show ?thesis
  proof (cases "?d < length (ghr s)")
    case False
    from update_mispredict_isl[OF assms False, of PC nextPC] False show ?thesis
      by (simp add: Let_def)
  next
    case True
    from update_ok[OF True, of PC resolveDir predDir nextPC]
    obtain s' where s': "update s seq_no piece PC resolveDir predDir nextPC = Inr s'" by blast
    from update_Inr[OF s'] obtain hist tabs ws bt where
      u: "update_tables s hist ?st ?d PC resolveDir predDir = (tabs, ws, bt)"
      and t: "tagged_tables s' = (if (reset_counter s + 1) mod 2 ^ 32 \<ge> RESET_PERIOD then age_useful tabs else tabs)"
      and g: "ghr s' = hist"
      and b: "base_table s' = bt" and w: "weights s' = ws"
      and m: "use_alt_on_na s' = update_use_alt (use_alt_on_na s) ?st resolveDir predDir"
      by blast
    from u have tabs: "tabs = fst (update_tables s hist ?st ?d PC resolveDir predDir)" by simp
    have t': "tagged_tables s' =
       (let tabs = (if provider_table ?st = -1 then tagged_tables s
                    else spec_allocate
                           (update_provider (tagged_tables s) (ghr s') PC ?d
                              (nat (provider_table ?st)) (altpred ?st) resolveDir predDir)
                           (ghr s') PC ?d resolveDir (nat (provider_table ?st)))
        in if (reset_counter s + 1) mod 2 ^ 32 \<ge> RESET_PERIOD then age_useful tabs else tabs)"
      using t g unfolding tabs update_tables_mispredict[OF assms(1)] by (simp add: Let_def)
    have b': "base_table s' =
       (if provider_table ?st = -1
        then (base_table s)[unat PC mod length (base_table s) :=
               (if resolveDir
                then min (base_table s ! (unat PC mod length (base_table s)) + 1) 1
                else max (base_table s ! (unat PC mod length (base_table s)) - 1) (- 2))]
        else base_table s)"
    proof (cases "provider_table ?st = -1")
      case True
      with u b show ?thesis by (simp add: update_tables_base update_base_eq)
    next
      case False
      from update_tables_tagged_base[OF False, of s hist ?d PC resolveDir predDir] u b False
      show ?thesis by simp
    qed
    have c': "provider_table ?st = -1 \<longrightarrow> weights s' = weights s \<and> use_alt_on_na s' = use_alt_on_na s"
      using u w m by (auto simp: update_tables_base update_use_alt_def)
    from s' t' b' c' True show ?thesis by (simp add: Let_def)
  qed
qed

text \<open>
  At program counter 0x1000 on the cold predictor table 0 provides; the misprediction
  decrements its counter and plants a fresh entry in table 1, the nearest table above, and
  the base table is as it was. At program counter 0x1001 the base predictor provides; the
  misprediction takes the base counter of the program counter from 0 to \<open>-1\<close>. Without a
  push the history is empty and the misprediction does not complete.
\<close>

theorem update_allocates_witness:
  "(\<exists>s'. run SampleCondPredictor tagged_mispredict = Inr s'
      \<and> tagged_tables s' ! 0 ! 0 = \<lparr>tag = 0, ctr = -1, u = 0\<rparr>
      \<and> tagged_tables s' ! 1 ! 0 = \<lparr>tag = 0, ctr = -1, u = 0\<rparr>
      \<and> tagged_tables s' ! 2 = tagged_tables SampleCondPredictor ! 2
      \<and> base_table s' = base_table SampleCondPredictor)
   \<and> (\<exists>s'. run SampleCondPredictor base_mispredict = Inr s'
      \<and> tagged_tables s' = tagged_tables SampleCondPredictor
      \<and> base_table s' = (base_table SampleCondPredictor)[4097 := - 1])
   \<and> update (fst (predict SampleCondPredictor 1 0 4096 False 0)) 1 0 4096 False True 4100
        = Inl GhrIndexOutOfRange"
proof -
  let ?s2 = "history_update (fst (predict SampleCondPredictor 1 0 4096 False 0)) 1 0 4096 True 4100"
  let ?cold = "tagged_tables SampleCondPredictor"
  let ?e = "\<lparr>tag = 0, ctr = -1, u = 0\<rparr> :: TaggedEntry"
  note f = pushed_once[of 4096 4100]
  from update_allocates[of False True ?s2 1 0 4096 4100]
  obtain s' where s': "update ?s2 1 0 4096 False True 4100 = Inr s'"
    and t: "tagged_tables s' =
         spec_allocate (update_provider ?cold (ghr s') 4096 0 0 True False True) (ghr s') 4096 0 False 0"
    and bs: "base_table s' = base_table SampleCondPredictor"
    by (auto simp: Let_def f delta_cycles_def cold_predict_state RESET_PERIOD_def)
  from update_ghr[OF s'] have g: "ghr s' = [False]" by (simp add: f delta_cycles_def rollback_ghr_def)
  have i0: "hash_idx ?cold [False] 4096 0 0 = 0"
    by (simp add: hash_idx_def compute_hash_one_false cfgs mk_cfg_def)
  have up: "update_provider ?cold [False] 4096 0 0 True False True = ?cold[0 := (?cold ! 0)[0 := ?e]]"
    by (simp add: update_provider_def Let_def i0 cold_table cfgs mk_cfg_def entries_def
          update_ctr_def update_useful_def TAGE_PRED_BITS_def)
  let ?t1 = "?cold[0 := (?cold ! 0)[0 := ?e]]"
  have l: "length ?cold = 12" by (simp add: SampleCondPredictor_def length_TAGGED_CONFIGS)
  have t1: "?t1 ! Suc 0 = replicate 1024 \<lparr>tag = 0, ctr = 0, u = 0\<rparr>"
    by (simp add: cold_table cfgs mk_cfg_def entries_def)
  have i1: "hash_idx ?t1 [False] 4096 (Suc 0) 0 = 0"
    by (simp add: hash_idx_def compute_hash_one_false cfgs mk_cfg_def t1)
  have fs: "free_slot ?t1 [False] 4096 0 (Suc 0)"
    by (simp add: free_slot_def i1 t1)
  have fr: "fresh_entry [False] 4096 0 (Suc 0) False = ?e"
    by (simp add: fresh_entry_def hash_tag_def compute_hash_one_false cfgs mk_cfg_def)
  have sa: "spec_allocate ?t1 [False] 4096 0 False 0 = ?t1[Suc 0 := (?t1 ! Suc 0)[0 := ?e]]"
    using find_upt_first[of "free_slot ?t1 [False] 4096 0" "Suc 0" 12, OF fs]
    by (simp add: spec_allocate_def NUM_TAGGED_TABLES_def i1 fr)
  have r: "tagged_tables s' = ?t1[Suc 0 := (?t1 ! Suc 0)[0 := ?e]]"
    unfolding t g up sa ..
  have a: "tagged_tables s' ! 0 ! 0 = ?e" unfolding r by (simp add: l cold_table cfgs mk_cfg_def entries_def)
  have b: "tagged_tables s' ! 1 ! 0 = ?e" unfolding r by (simp add: l t1)
  have c: "tagged_tables s' ! 2 = ?cold ! 2" unfolding r by (simp add: l)
  from s' a b c bs have one: "\<exists>s'. run SampleCondPredictor tagged_mispredict = Inr s'
      \<and> tagged_tables s' ! 0 ! 0 = ?e \<and> tagged_tables s' ! 1 ! 0 = ?e
      \<and> tagged_tables s' ! 2 = ?cold ! 2
      \<and> base_table s' = base_table SampleCondPredictor"
    by (simp add: tagged_mispredict_def)
  let ?b2 = "history_update (fst (predict SampleCondPredictor 1 0 4097 False 0)) 1 0 4097 True 4101"
  note h = pushed_once[of 4097 4101]
  from update_allocates[of False True ?b2 1 0 4097 4101]
  obtain s'' where s'': "update ?b2 1 0 4097 False True 4101 = Inr s''"
    and t2: "tagged_tables s'' = tagged_tables SampleCondPredictor"
    and b2: "base_table s'' = (base_table SampleCondPredictor)[4097 := - 1]"
    by (auto simp: Let_def h delta_cycles_def cold_4097_provider RESET_PERIOD_def cold_base)
  from s'' t2 b2 have two: "\<exists>s'. run SampleCondPredictor base_mispredict = Inr s'
      \<and> tagged_tables s' = tagged_tables SampleCondPredictor
      \<and> base_table s' = (base_table SampleCondPredictor)[4097 := - 1]"
    by (simp add: base_mispredict_def)
  let ?p1 = "fst (predict SampleCondPredictor 1 0 4096 False 0)"
  have "ghr ?p1 = []" by (simp add: predict_def Let_def cold_ghr)
  with update_allocates[of False True ?p1 1 0 4096 4100]
  have three: "update ?p1 1 0 4096 False True 4100 = Inl GhrIndexOutOfRange"
    by (simp add: Let_def)
  from one two three show ?thesis by blast
qed

section \<open>The ranges of the counters\<close>

lemma list_all_update:
  "list_all P xs \<Longrightarrow> (i < length xs \<Longrightarrow> P v) \<Longrightarrow> list_all P (xs[i := v])"
proof (cases "i < length xs")
  case True
  assume "list_all P xs" "i < length xs \<Longrightarrow> P v"
  with True set_update_subset_insert[of xs i v] show ?thesis
    by (auto simp: list_all_iff)
next
  case False
  assume "list_all P xs"
  with False show ?thesis by (simp add: list_update_beyond)
qed

lemma list_all_nth: "list_all P xs \<Longrightarrow> i < length xs \<Longrightarrow> P (xs ! i)"
  by (simp add: list_all_length)

lemma tables_update:
  assumes "list_all (list_all entry_in_range) tabs"
    and "k < length tabs \<Longrightarrow> i < length (tabs ! k) \<Longrightarrow> entry_in_range e"
  shows "list_all (list_all entry_in_range) (tabs[k := (tabs ! k)[i := e]])"
proof (rule list_all_update[OF assms(1)])
  assume k: "k < length tabs"
  with assms(1) have "list_all entry_in_range (tabs ! k)" by (rule list_all_nth)
  then show "list_all entry_in_range ((tabs ! k)[i := e])"
    using assms(2)[OF k] by (rule list_all_update)
qed

lemma update_ctr_range: "- 4 \<le> c \<Longrightarrow> c \<le> 3 \<Longrightarrow> - 4 \<le> update_ctr c r \<and> update_ctr c r \<le> 3"
  by (simp add: update_ctr_def TAGE_PRED_BITS_def)

lemma update_useful_range: "v \<le> 3 \<Longrightarrow> update_useful v a r p \<le> 3"
  by (auto simp: update_useful_def TAGE_USEFUL_BITS_def max_def)

lemma update_provider_range:
  assumes "list_all (list_all entry_in_range) tabs"
  shows "list_all (list_all entry_in_range) (update_provider tabs hist PC delta p a r pd)"
  unfolding update_provider_def Let_def
proof (rule tables_update[OF assms])
  let ?i = "hash_idx tabs hist PC p delta"
  assume "p < length tabs" "?i < length (tabs ! p)"
  with assms have "entry_in_range (tabs ! p ! ?i)"
    by (auto dest!: list_all_nth)
  then show "entry_in_range ((tabs ! p ! ?i)\<lparr>ctr := update_ctr (ctr (tabs ! p ! ?i)) r,
                 u := update_useful (u (tabs ! p ! ?i)) a r pd\<rparr>)"
    using update_ctr_range[of "ctr (tabs ! p ! ?i)" r] update_useful_range[of "u (tabs ! p ! ?i)" a r pd]
    by (simp add: entry_in_range_def)
qed

lemma alloc_loop_range:
  assumes "list_all (list_all entry_in_range) tabs"
  shows "list_all (list_all entry_in_range) (fst (alloc_loop tabs hist PC delta r ks))"
proof (induction ks)
  case Nil
  with assms show ?case by simp
next
  case (Cons k ks)
  have "list_all (list_all entry_in_range)
          (tabs[k := (tabs ! k)[hash_idx tabs hist PC k delta :=
             \<lparr>tag = hash_tag hist PC k delta, ctr = (if r then 0 else -1), u = 0\<rparr>]])"
    by (rule tables_update[OF assms]) (simp add: entry_in_range_def)
  with Cons show ?case by (simp add: Let_def)
qed

lemma age_useful_range:
  assumes "list_all (list_all entry_in_range) tabs"
  shows "list_all (list_all entry_in_range) (age_useful tabs)"
proof -
  have "entry_in_range e \<Longrightarrow> entry_in_range (e\<lparr>u := drop_bit 1 (u e)\<rparr>)" for e
  proof -
    assume a: "entry_in_range e"
    have "u e div 2 \<le> u e" by (rule div_le_dividend)
    with a have "u e div 2 \<le> 3" unfolding entry_in_range_def by linarith
    with a show ?thesis by (simp add: entry_in_range_def drop_bit_eq_div)
  qed
  with assms show ?thesis
    by (auto simp: age_useful_def list_all_iff)
qed

lemma update_base_range:
  assumes "list_all (\<lambda>b. - 2 \<le> b \<and> b \<le> 1) bt"
  shows "list_all (\<lambda>b. - 2 \<le> b \<and> b \<le> 1) (update_base bt PC r)"
  unfolding update_base_def Let_def
proof (rule list_all_update[OF assms])
  let ?i = "unat PC mod length bt"
  assume "?i < length bt"
  with assms have "- 2 \<le> bt ! ?i \<and> bt ! ?i \<le> 1" by (rule list_all_nth)
  then show "- 2 \<le> (if r then min (bt ! ?i + 1) (2 ^ (BASE_PRED_BITS - 1) - 1)
                     else max (bt ! ?i - 1) (- (2 ^ (BASE_PRED_BITS - 1))))
           \<and> (if r then min (bt ! ?i + 1) (2 ^ (BASE_PRED_BITS - 1) - 1)
                     else max (bt ! ?i - 1) (- (2 ^ (BASE_PRED_BITS - 1)))) \<le> 1"
    by (simp add: BASE_PRED_BITS_def)
qed

lemma update_use_alt_range: "m \<le> 15 \<Longrightarrow> update_use_alt m st r p \<le> 15"
  by (auto simp: update_use_alt_def max_def)

lemma update_tables_range:
  assumes "counters_in_range s"
    and "update_tables s hist st delta PC r p = (tabs, ws, bt)"
  shows "list_all (list_all entry_in_range) tabs \<and> list_all (\<lambda>b. - 2 \<le> b \<and> b \<le> 1) bt"
proof -
  from assms(1) have t: "list_all (list_all entry_in_range) (tagged_tables s)"
    and b: "list_all (\<lambda>b. - 2 \<le> b \<and> b \<le> 1) (base_table s)"
    by (simp_all add: counters_in_range_def)
  note up = update_provider_range[OF t, of hist PC delta "nat (provider_table st)" "altpred st" r p]
  note al = alloc_loop_range[OF up, of hist PC delta r "[nat (provider_table st) + 1..<NUM_TAGGED_TABLES]"]
  from assms(2) up al t b update_base_range[OF b, of PC r] show ?thesis
    by (auto simp: update_tables_def Let_def split: if_splits prod.splits)
qed

lemma update_range:
  assumes "counters_in_range s" "update s seq_no piece PC r p nextPC = Inr s'"
  shows "counters_in_range s'"
proof -
  from update_Inr[OF assms(2)] obtain hist tabs ws bt where
    u: "update_tables s hist (lookup_or_insert (speculative_states s) (get_unique_inst_id seq_no piece))
          (unat (delta_cycles s (lookup_or_insert (speculative_states s) (get_unique_inst_id seq_no piece))))
          PC r p = (tabs, ws, bt)"
    and f: "base_table s' = bt"
       "tagged_tables s' = (if (reset_counter s + 1) mod 2 ^ 32 \<ge> RESET_PERIOD then age_useful tabs else tabs)"
       "use_alt_on_na s' = update_use_alt (use_alt_on_na s)
           (lookup_or_insert (speculative_states s) (get_unique_inst_id seq_no piece)) r p"
    by blast
  from update_tables_range[OF assms(1) u]
  have t: "list_all (list_all entry_in_range) tabs" and b: "list_all (\<lambda>b. - 2 \<le> b \<and> b \<le> 1) bt"
    by simp_all
  from assms(1) have "use_alt_on_na s \<le> 15" by (simp add: counters_in_range_def)
  from update_use_alt_range[OF this] t b age_useful_range[OF t] show ?thesis
    by (simp add: counters_in_range_def f)
qed

lemma step_range:
  assumes "counters_in_range s" "step s c = Inr s'"
  shows "counters_in_range s'"
proof (cases c)
  case (Predict x11 x12 x13 x14 x15)
  with assms show ?thesis by (auto simp: predict_def Let_def counters_in_range_def)
next
  case (HistoryUpdate x21 x22 x23 x24 x25)
  with assms show ?thesis by (auto simp: history_update_def Let_def counters_in_range_def)
next
  case (Update x31 x32 x33 x34 x35 x36)
  with assms update_range show ?thesis by auto
qed

lemma run_range:
  assumes "counters_in_range s" "run s cs = Inr s'"
  shows "counters_in_range s'"
  using assms
proof (induction cs arbitrary: s)
  case Nil
  then show ?case by simp
next
  case (Cons c cs)
  then obtain s1 where s1: "step s c = Inr s1" "run s1 cs = Inr s'"
    by (auto split: sum.splits)
  from step_range[OF Cons.prems(1) s1(1)] Cons.IH s1(2) show ?case by blast
qed

lemma cold_range: "counters_in_range SampleCondPredictor"
  by (simp add: counters_in_range_def SampleCondPredictor_def USE_ALT_THRESHOLD_def
        list_all_iff entry_in_range_def)

lemma tagged_mispredict_run: "\<exists>s. run SampleCondPredictor tagged_mispredict = Inr s"
proof -
  let ?s2 = "history_update (fst (predict SampleCondPredictor 1 0 4096 False 0)) 1 0 4096 True 4100"
  note f = pushed_once[of 4096 4100]
  have "unat (delta_cycles ?s2 (lookup_or_insert (speculative_states ?s2) (get_unique_inst_id 1 0)))
             < length (ghr ?s2)" by (simp add: f delta_cycles_def)
  from update_ok[OF this, of 4096 False True 4100]
  obtain s' where "update ?s2 1 0 4096 False True 4100 = Inr s'" by blast
  then show ?thesis by (simp add: tagged_mispredict_def)
qed

section \<open>Reachable states are well-formed\<close>

text \<open>
  The lengths that the constructor gives to the tables never change, and every checkpoint
  records the sentinel or the number of a table: in the states that call sequences reach
  from the constructed predictor, the list accesses of the model are the vector accesses of
  the source.
\<close>

lemma map_update_same:
  assumes "f v = f (xs ! k)"
  shows "map f (xs[k := v]) = map f xs"
proof (rule nth_equalityI)
  show "length (map f (xs[k := v])) = length (map f xs)" by simp
next
  fix i
  assume "i < length (map f (xs[k := v]))"
  then have "i < length xs" by simp
  with assms show "map f (xs[k := v]) ! i = map f xs ! i"
    by (cases "i = k") simp_all
qed

lemma map_length_update:
  "map length (tabs[k := (tabs ! k)[i := e]]) = map length tabs"
  by (simp add: map_update_same)

lemma update_provider_lengths:
  "map length (update_provider tabs hist PC delta p a r pd) = map length tabs"
  by (simp add: update_provider_def Let_def map_length_update)

lemma alloc_loop_lengths:
  "map length (fst (alloc_loop tabs hist PC delta r ks)) = map length tabs"
  by (induction ks) (simp_all add: Let_def map_length_update)

lemma age_useful_lengths: "map length (age_useful tabs) = map length tabs"
  by (simp add: age_useful_def comp_def)

lemma fold_update_length:
  "length (fold (\<lambda>j w. w[j := f j w]) js w) = length w"
  by (induction js arbitrary: w) simp_all

lemma update_weight_row_length: "length (update_weight_row w hist delta t) = length w"
  by (simp add: update_weight_row_def Let_def fold_update_length)

lemma fold_rows_lengths:
  "map length (fold (\<lambda>i ws. ws[i := update_weight_row (ws ! i) hist delta (t i)]) is ws) = map length ws"
proof (induction "is" arbitrary: ws)
  case Nil
  then show ?case by simp
next
  case (Cons i "is")
  have "map length (ws[i := update_weight_row (ws ! i) hist delta (t i)]) = map length ws"
    by (simp add: map_update_same update_weight_row_length)
  with Cons show ?case by simp
qed

lemma update_weights_lengths: "map length (update_weights ws hist delta k) = map length ws"
  by (simp add: update_weights_def fold_rows_lengths)

lemma update_tables_lengths:
  assumes "update_tables s hist st delta PC r p = (tabs, ws, bt)"
  shows "map length tabs = map length (tagged_tables s)"
    and "map length ws = map length (weights s)"
    and "length bt = length (base_table s)"
  using assms update_provider_lengths[of "tagged_tables s" hist PC delta "nat (provider_table st)" "altpred st" r p]
    alloc_loop_lengths[of "update_provider (tagged_tables s) hist PC delta (nat (provider_table st)) (altpred st) r p"
       hist PC delta r "[nat (provider_table st) + 1..<NUM_TAGGED_TABLES]"]
  by (auto simp: update_tables_def Let_def update_weights_lengths update_base_def
      split: if_splits prod.splits)

lemma step_wf:
  assumes "wf s" "step s c = Inr s'"
  shows "wf s'"
proof (cases c)
  case (Predict x11 x12 x13 x14 x15)
  with assms show ?thesis by (auto simp: predict_def Let_def wf_def)
next
  case (HistoryUpdate x21 x22 x23 x24 x25)
  with assms show ?thesis by (auto simp: history_update_def Let_def wf_def)
next
  case (Update x31 x32 x33 x34 x35 x36)
  with assms have u: "update s x31 x32 x33 x34 x35 x36 = Inr s'" by simp
  from update_Inr[OF u] obtain hist tabs ws bt where
    t: "update_tables s hist (lookup_or_insert (speculative_states s) (get_unique_inst_id x31 x32))
          (unat (delta_cycles s (lookup_or_insert (speculative_states s) (get_unique_inst_id x31 x32))))
          x33 x34 x35 = (tabs, ws, bt)"
    and f: "base_table s' = bt" "weights s' = ws"
       "tagged_tables s' = (if (reset_counter s + 1) mod 2 ^ 32 \<ge> RESET_PERIOD then age_useful tabs else tabs)"
    by blast
  from update_tables_lengths[OF t] assms(1) show ?thesis
    by (simp add: wf_def f age_useful_lengths)
qed

lemma run_wf:
  assumes "wf s" "run s cs = Inr s'"
  shows "wf s'"
  using assms
proof (induction cs arbitrary: s)
  case Nil
  then show ?case by simp
next
  case (Cons c cs)
  then obtain s1 where s1: "step s c = Inr s1" "run s1 cs = Inr s'"
    by (auto split: sum.splits)
  from step_wf[OF Cons.prems(1) s1(1)] Cons.IH s1(2) show ?case by blast
qed

lemma cold_wf: "wf SampleCondPredictor"
  by (simp add: wf_def SampleCondPredictor_def)

lemma reachable_wf: "run SampleCondPredictor cs = Inr s \<Longrightarrow> wf s"
  using run_wf[OF cold_wf] .


lemma predict_state_provider_ok: "provider_ok (predict_state s PC uninit)"
proof (cases "find (tag_match s PC) (top_pred_idxs s)")
  case None
  then show ?thesis
    by (simp add: provider_ok_def predict_state_scan use_alt_def Let_def)
next
  case (Some p)
  then have "p \<in> set (top_pred_idxs s)" by (auto simp: find_Some_iff)
  with top_pred_idxs_perm[of s] have "p < NUM_TAGGED_TABLES" by simp
  with Some show ?thesis
    by (simp add: provider_ok_def predict_state_scan use_alt_def Let_def split: option.splits)
qed

lemma step_checkpoints:
  assumes "\<forall>st \<in> ran (speculative_states s). provider_ok st" "step s c = Inr s'"
  shows "\<forall>st \<in> ran (speculative_states s'). provider_ok st"
proof (cases c)
  case (Predict x11 x12 x13 x14 x15)
  with assms predict_state_provider_ok[of s x13 x15] show ?thesis
    by (fastforce simp: predict_def Let_def ran_def split: if_splits)
next
  case (HistoryUpdate x21 x22 x23 x24 x25)
  have "provider_ok ((lookup_or_insert (speculative_states s) (get_unique_inst_id x21 x22))
          \<lparr>state_pred_cycle := pred_cycle s + 1\<rparr>)"
    using assms(1)
    by (auto simp: lookup_or_insert_def provider_ok_def value_init_state_def NUM_TAGGED_TABLES_def ran_def
        split: option.splits)
  with HistoryUpdate assms show ?thesis
    by (fastforce simp: history_update_def Let_def ran_def split: if_splits)
next
  case (Update x31 x32 x33 x34 x35 x36)
  with assms have "update s x31 x32 x33 x34 x35 x36 = Inr s'" by simp
  from update_frame(2)[OF this] assms(1) show ?thesis
    by (fastforce simp: ran_def split: if_splits)
qed

lemma reachable_checkpoints:
  assumes "run SampleCondPredictor cs = Inr s" "speculative_states s i = Some st"
  shows "provider_ok st"
proof -
  have "\<forall>st \<in> ran (speculative_states s'). provider_ok st"
    if "\<forall>st \<in> ran (speculative_states s0). provider_ok st" "run s0 cs = Inr s'" for s0 s'
    using that
  proof (induction cs arbitrary: s0)
    case Nil
    then show ?case by simp
  next
    case (Cons c cs)
    then obtain s1 where s1: "step s0 c = Inr s1" "run s1 cs = Inr s'"
      by (auto split: sum.splits)
    from step_checkpoints[OF Cons.prems(1) s1(1)] Cons.IH s1(2) show ?case by blast
  qed
  from this[of SampleCondPredictor s] assms show ?thesis
    by (auto simp: cold_states ran_def)
qed

section \<open>Saturation\<close>

text \<open>
  The steps that \<^verbatim>\<open>update\<close> applies to the counters, written with their bounds; the slot
  of the provider after a complete \<^verbatim>\<open>update\<close> (the allocation loop starts above the
  provider's table and leaves that slot alone).
\<close>


lemma nat_max_pred: "nat (max (int v - 1) 0) = v - 1"
  by (cases v) (simp_all add: max_def)

lemma update_useful_eq:
  "update_useful v a r p = (if a = p then v else if r = p then min (v + 1) 3 else v - 1)"
  by (simp add: update_useful_def TAGE_USEFUL_BITS_def nat_max_pred)

lemma update_use_alt_eq:
  "update_use_alt m st r p =
     (if provider_table st \<noteq> -1 \<and> altpred st = r \<and> p \<noteq> r then min (m + 1) 15
      else if provider_table st \<noteq> -1 \<and> altpred st \<noteq> r \<and> p = r then m - 1 else m)"
  by (simp add: update_use_alt_def nat_max_pred)

lemma alloc_loop_other:
  "p \<notin> set ks \<Longrightarrow> fst (alloc_loop tabs hist PC delta r ks) ! p = tabs ! p"
  by (induction ks) (auto simp: Let_def)

lemma wf_lengths:
  assumes "wf s" "t < 12"
  shows "length (tagged_tables s) = 12"
    and "length (tagged_tables s ! t) = entries (TAGGED_CONFIGS ! t)"
    and "hash_idx (tagged_tables s) hist PC t delta < length (tagged_tables s ! t)"
    and "length (base_table s) = 16384"
proof -
  from assms(1) have m: "map length (tagged_tables s) = map entries TAGGED_CONFIGS"
    and b: "length (base_table s) = 2 ^ BASE_INDEX_BITS"
    by (simp_all add: wf_def)
  from m have "length (map length (tagged_tables s)) = length (map entries TAGGED_CONFIGS)" by simp
  then show l: "length (tagged_tables s) = 12" by (simp add: length_TAGGED_CONFIGS)
  from m have "map length (tagged_tables s) ! t = map entries TAGGED_CONFIGS ! t" by simp
  with l assms(2) show e: "length (tagged_tables s ! t) = entries (TAGGED_CONFIGS ! t)"
    by (simp add: length_TAGGED_CONFIGS)
  show "hash_idx (tagged_tables s) hist PC t delta < length (tagged_tables s ! t)"
    unfolding hash_idx_def e by (simp add: entries_pos)
  from b show "length (base_table s) = 16384" by (simp add: BASE_INDEX_BITS_def)
qed

lemma update_tables_provider_slot:
  assumes "wf s" "provider_table st \<noteq> -1" "nat (provider_table st) < 12"
  shows "fst (update_tables s hist st delta PC r p) ! nat (provider_table st)
            ! hash_idx (tagged_tables s) hist PC (nat (provider_table st)) delta
         = (tagged_tables s ! nat (provider_table st)
              ! hash_idx (tagged_tables s) hist PC (nat (provider_table st)) delta)
             \<lparr>ctr := update_ctr (ctr (tagged_tables s ! nat (provider_table st)
                       ! hash_idx (tagged_tables s) hist PC (nat (provider_table st)) delta)) r,
              u := update_useful (u (tagged_tables s ! nat (provider_table st)
                       ! hash_idx (tagged_tables s) hist PC (nat (provider_table st)) delta))
                     (altpred st) r p\<rparr>"
proof -
  let ?t = "nat (provider_table st)"
  let ?i = "hash_idx (tagged_tables s) hist PC ?t delta"
  note l = wf_lengths(1,2)[OF assms(1,3)] wf_lengths(3)[OF assms(1,3), of hist PC delta]
  let ?tabs1 = "update_provider (tagged_tables s) hist PC delta ?t (altpred st) r p"
  have a: "?tabs1 ! ?t ! ?i = (tagged_tables s ! ?t ! ?i)
             \<lparr>ctr := update_ctr (ctr (tagged_tables s ! ?t ! ?i)) r,
              u := update_useful (u (tagged_tables s ! ?t ! ?i)) (altpred st) r p\<rparr>"
    using l assms(3) by (simp add: update_provider_def Let_def)
  have "?t \<notin> set [?t + 1..<NUM_TAGGED_TABLES]" by simp
  from alloc_loop_other[OF this, of ?tabs1 hist PC delta r]
  have b: "fst (alloc_loop ?tabs1 hist PC delta r [?t + 1..<NUM_TAGGED_TABLES]) ! ?t = ?tabs1 ! ?t" .
  have "fst (update_tables s hist st delta PC r p) ! ?t = ?tabs1 ! ?t"
    using assms(2) b by (auto simp: update_tables_def Let_def split: prod.splits)
  with a show ?thesis by simp
qed

lemma age_useful_nth:
  "t < length tabs \<Longrightarrow> i < length (tabs ! t) \<Longrightarrow>
   age_useful tabs ! t ! i = (tabs ! t ! i)\<lparr>u := drop_bit 1 (u (tabs ! t ! i))\<rparr>"
  by (simp add: age_useful_def)

lemma update_reset_counter:
  assumes "update s seq_no piece PC r p nextPC = Inr s'"
  shows "reset_counter s' = (if RESET_PERIOD \<le> (reset_counter s + 1) mod 2 ^ 32 then 0
                             else (reset_counter s + 1) mod 2 ^ 32)"
  using assms
  by (auto simp: update_def Let_def split: sum.splits if_splits prod.splits)

lemma update_saturating_step:
  assumes "wf s" and "update s seq_no piece PC r p nextPC = Inr s'"
    and "provider_ok (lookup_or_insert (speculative_states s) (get_unique_inst_id seq_no piece))"
  shows "let st = lookup_or_insert (speculative_states s) (get_unique_inst_id seq_no piece);
             delta = unat (delta_cycles s st);
             aged = (RESET_PERIOD \<le> (reset_counter s + 1) mod 2 ^ 32);
             t = nat (provider_table st);
             i = hash_idx (tagged_tables s) (ghr s') PC t delta;
             b = unat PC mod length (base_table s);
             e = tagged_tables s ! t ! i;
             e' = tagged_tables s' ! t ! i
         in if provider_table st \<noteq> -1 then
              ctr e' = (if r then min (ctr e + 1) 3 else max (ctr e - 1) (- 4))
              \<and> u e' = (let v = (if altpred st = p then u e
                                  else if r = p then min (u e + 1) 3 else u e - 1)
                        in if aged then v div 2 else v)
              \<and> base_table s' = base_table s
              \<and> use_alt_on_na s' =
                  (if altpred st = r \<and> p \<noteq> r then min (use_alt_on_na s + 1) 15
                   else if altpred st \<noteq> r \<and> p = r then use_alt_on_na s - 1
                   else use_alt_on_na s)
            else
              base_table s' = (base_table s)
                 [b := (if r then min (base_table s ! b + 1) 1 else max (base_table s ! b - 1) (- 2))]
              \<and> use_alt_on_na s' = use_alt_on_na s"
proof -
  let ?st = "lookup_or_insert (speculative_states s) (get_unique_inst_id seq_no piece)"
  let ?d = "unat (delta_cycles s ?st)"
  let ?t = "nat (provider_table ?st)"
  from update_Inr[OF assms(2)] obtain hist tabs ws bt where
    u: "update_tables s hist ?st ?d PC r p = (tabs, ws, bt)"
    and f: "base_table s' = bt"
       "tagged_tables s' = (if (reset_counter s + 1) mod 2 ^ 32 \<ge> RESET_PERIOD then age_useful tabs else tabs)"
       "ghr s' = hist"
       "use_alt_on_na s' = update_use_alt (use_alt_on_na s) ?st r p"
    by blast
  show ?thesis
  proof (cases "provider_table ?st = -1")
    case True
    with u have "bt = update_base (base_table s) PC r" by (simp add: update_tables_def)
    with True f show ?thesis
      by (simp add: Let_def update_base_eq update_use_alt_def)
  next
    case False
    with assms(3) have t: "?t < 12"
      by (auto simp: provider_ok_def NUM_TAGGED_TABLES_def nat_less_iff)
    let ?i = "hash_idx (tagged_tables s) hist PC ?t ?d"
    let ?e = "tagged_tables s ! ?t ! ?i"
    from update_tables_provider_slot[OF assms(1) False t, of hist ?d PC r p] u
    have sl: "tabs ! ?t ! ?i = ?e\<lparr>ctr := update_ctr (ctr ?e) r,
                                   u := update_useful (u ?e) (altpred ?st) r p\<rparr>" by simp
    from update_tables_lengths(1)[OF u] have "map length tabs = map length (tagged_tables s)" .
    then have ml: "length tabs = length (tagged_tables s)" "length (tabs ! ?t) = length (tagged_tables s ! ?t)"
      using wf_lengths(1)[OF assms(1) t] t
      by (metis length_map, metis length_map nth_map)
    note l = wf_lengths(1,2)[OF assms(1) t] wf_lengths(3)[OF assms(1) t, of hist PC ?d]
    have ag: "age_useful tabs ! ?t ! ?i = (tabs ! ?t ! ?i)\<lparr>u := drop_bit 1 (u (tabs ! ?t ! ?i))\<rparr>"
      using l(3) by (intro age_useful_nth) (simp_all add: ml l(1) t)
    have bt: "bt = base_table s"
      using update_tables_tagged_base[OF False, of s hist ?d PC r p] u by simp
    have c: "ctr (tagged_tables s' ! ?t ! ?i) = (if r then min (ctr ?e + 1) 3 else max (ctr ?e - 1) (- 4))"
      by (simp add: f(2) ag sl update_ctr_def TAGE_PRED_BITS_def)
    have v: "u (tagged_tables s' ! ?t ! ?i) =
        (let v = (if altpred ?st = p then u ?e else if r = p then min (u ?e + 1) 3 else u ?e - 1)
         in if RESET_PERIOD \<le> (reset_counter s + 1) mod 2 ^ 32 then v div 2 else v)"
      by (simp add: f(2) ag sl update_useful_eq drop_bit_eq_div Let_def)
    have m: "use_alt_on_na s' =
                  (if altpred ?st = r \<and> p \<noteq> r then min (use_alt_on_na s + 1) 15
                   else if altpred ?st \<noteq> r \<and> p = r then use_alt_on_na s - 1
                   else use_alt_on_na s)"
      using False by (simp add: f(4) update_use_alt_eq)
    from False c v m bt f(1,3) show ?thesis by (simp add: Let_def)
  qed
qed

text \<open>
  Rounds in one direction. All pushed bits are not taken, so every hash is the program
  counter masked to the width asked for, whatever the length of the history.
\<close>

lemma run_append:
  "run s (xs @ ys) = (case run s xs of Inl e \<Rightarrow> Inl e | Inr s' \<Rightarrow> run s' ys)"
  by (induction xs arbitrary: s) (auto split: sum.splits)

lemma rounds_Suc:
  "same_direction_rounds PC nextPC d (Suc n) = same_direction_rounds PC nextPC d n @ same_direction_round PC nextPC d"
proof -
  have e: "replicate (Suc n) r = replicate n r @ [r]" for r :: "call list"
    by (simp add: replicate_append_same)
  show ?thesis unfolding same_direction_rounds_def e concat_append by simp
qed

lemma push_ghr_quiet:
  "push_ghr (replicate k False) False = replicate (if k < 672 then Suc k else k) False"
proof -
  have "replicate k False @ [False] = replicate (Suc k) False"
    by (simp add: replicate_append_same)
  then show ?thesis
    by (simp add: push_ghr_def Let_def MAX_HISTORY_def MAX_HISTORY_BUFFER_def)
qed

text \<open>The state in which the resolution of a round starts.\<close>

lemma round_pushed:
  fixes PC :: u64 and nextPC :: u64 and s :: predictor
  defines "s2 \<equiv> history_update (fst (predict s 1 0 PC False 0)) 1 0 PC False nextPC"
  shows "ghr s2 = push_ghr (ghr s) False" "tagged_tables s2 = tagged_tables s"
    "weights s2 = weights s" "base_table s2 = base_table s"
    "use_alt_on_na s2 = use_alt_on_na s" "reset_counter s2 = reset_counter s"
    "lookup_or_insert (speculative_states s2) (get_unique_inst_id 1 0)
       = (predict_state s PC 0)\<lparr>state_pred_cycle := pred_cycle s + 1\<rparr>"
    "delta_cycles s2 (lookup_or_insert (speculative_states s2) (get_unique_inst_id 1 0)) = 0"
  unfolding s2_def
  by (simp_all add: history_update_def predict_def Let_def lookup_or_insert_def delta_cycles_def)

lemma round_run:
  fixes PC :: u64 and nextPC :: u64
  assumes "wf s"
  shows "\<exists>s'. run s (same_direction_round PC nextPC d) = Inr s'
     \<and> update (history_update (fst (predict s 1 0 PC False 0)) 1 0 PC False nextPC) 1 0 PC d d nextPC
          = Inr s'
     \<and> wf s' \<and> ghr s' = push_ghr (ghr s) False \<and> weights s' = weights s
     \<and> reset_counter s' = (if RESET_PERIOD \<le> (reset_counter s + 1) mod 2 ^ 32 then 0
                             else (reset_counter s + 1) mod 2 ^ 32)"
proof -
  let ?s2 = "history_update (fst (predict s 1 0 PC False 0)) 1 0 PC False nextPC"
  note f = round_pushed[of s PC nextPC]
  have "unat (delta_cycles ?s2 (lookup_or_insert (speculative_states ?s2) (get_unique_inst_id 1 0)))
          \<le> length (ghr ?s2)" by (simp add: f(8))
  from update_ok_correct[OF this, of PC d nextPC]
  obtain s' where s': "update ?s2 1 0 PC d d nextPC = Inr s'" by blast
  then have r: "run s (same_direction_round PC nextPC d) = Inr s'"
    by (simp add: same_direction_round_def)
  from run_wf[OF assms r] have w: "wf s'" .
  from update_ghr[OF s'] have g: "ghr s' = push_ghr (ghr s) False"
    by (simp add: rollback_ghr_def f)
  from update_Inr[OF s'] obtain hist tabs ws bt where
    u: "update_tables ?s2 hist (lookup_or_insert (speculative_states ?s2) (get_unique_inst_id 1 0))
          (unat (delta_cycles ?s2 (lookup_or_insert (speculative_states ?s2) (get_unique_inst_id 1 0))))
          PC d d = (tabs, ws, bt)"
    and ws: "weights s' = ws" by blast
  from u have "ws = weights ?s2"
    by (auto simp: update_tables_def Let_def split: if_splits prod.splits)
  with ws have wt: "weights s' = weights s" by (simp add: f)
  from update_reset_counter[OF s'] r s' w g wt show ?thesis by (simp add: f)
qed

lemma update_tables_correct:
  assumes "provider_table st \<noteq> -1"
  shows "update_tables s hist st delta PC d d
           = (update_provider (tagged_tables s) hist PC delta (nat (provider_table st)) (altpred st) d d,
              weights s, base_table s)"
  using assms by (simp add: update_tables_def Let_def)

lemma round_4096:
  assumes "wf s" "ghr s = replicate k False" "weights s = weights SampleCondPredictor"
    and "tagged_tables s ! 0 ! 0 = \<lparr>tag = 0, ctr = c, u = v\<rparr>"
    and "tagged_tables s ! Suc 0 ! 0 = \<lparr>tag = 0, ctr = 0, u = 0\<rparr>"
  shows "\<exists>s'. run s (same_direction_round 4096 4100 d) = Inr s' \<and> wf s'
     \<and> ghr s' = replicate (if k < 672 then Suc k else k) False
     \<and> weights s' = weights SampleCondPredictor
     \<and> reset_counter s' = (if RESET_PERIOD \<le> (reset_counter s + 1) mod 2 ^ 32 then 0
                             else (reset_counter s + 1) mod 2 ^ 32)
     \<and> tagged_tables s' ! 0 ! 0 =
           \<lparr>tag = 0, ctr = (if d then min (c + 1) 3 else max (c - 1) (- 4)),
            u = (if RESET_PERIOD \<le> (reset_counter s + 1) mod 2 ^ 32
                 then (if d then v else min (v + 1) 3) div 2
                 else (if d then v else min (v + 1) 3))\<rparr>
     \<and> tagged_tables s' ! Suc 0 ! 0 = \<lparr>tag = 0, ctr = 0, u = 0\<rparr>
     \<and> use_alt_on_na s' = (if d then use_alt_on_na s else use_alt_on_na s - 1)"
proof -
  let ?s2 = "history_update (fst (predict s 1 0 4096 False 0)) 1 0 4096 False 4100"
  let ?st = "lookup_or_insert (speculative_states ?s2) (get_unique_inst_id 1 0)"
  let ?k' = "if k < 672 then Suc k else k"
  let ?e = "\<lparr>tag = 0, ctr = update_ctr c d, u = update_useful v True d d\<rparr>"
  note f = round_pushed[of s 4096 4100]
  from round_run[OF assms(1), of 4096 4100 d] obtain s' where
    r: "run s (same_direction_round 4096 4100 d) = Inr s'"
    and s': "update ?s2 1 0 4096 d d 4100 = Inr s'"
    and w: "wf s'" and g: "ghr s' = push_ghr (ghr s) False"
    and wt: "weights s' = weights s"
    and rc: "reset_counter s' = (if RESET_PERIOD \<le> (reset_counter s + 1) mod 2 ^ 32 then 0
                             else (reset_counter s + 1) mod 2 ^ 32)"
    by blast
  have g': "ghr s' = replicate ?k' False" unfolding g assms(2) by (rule push_ghr_quiet)
  note ps = quiet_predict_state[OF assms(2,3,4,5), of 0]
  have st: "provider_table ?st = 0" "altpred ?st = True" by (simp_all add: f(7) ps)
  have l: "length (tagged_tables s) = 12" "length (tagged_tables s ! 0) = 1024"
    "length (tagged_tables s ! Suc 0) = 1024"
    using wf_lengths(1,2)[OF assms(1), of 0] wf_lengths(2)[OF assms(1), of "Suc 0"]
    by (simp_all add: cfgs mk_cfg_def entries_def)
  from update_Inr[OF s'] obtain hist tabs ws bt where
    u: "update_tables ?s2 hist ?st (unat (delta_cycles ?s2 ?st)) 4096 d d = (tabs, ws, bt)"
    and t: "tagged_tables s' = (if (reset_counter ?s2 + 1) mod 2 ^ 32 \<ge> RESET_PERIOD then age_useful tabs else tabs)"
    and h: "ghr s' = hist"
    and m: "use_alt_on_na s' = update_use_alt (use_alt_on_na ?s2) ?st d d"
    by blast
  have hist: "hist = replicate ?k' False" using h g' by simp
  have up: "update_provider (tagged_tables s) hist 4096 0 0 True d d
              = (tagged_tables s)[0 := (tagged_tables s ! 0)[0 := ?e]]"
    unfolding hist by (simp add: update_provider_def Let_def quiet_idx assms(4))
  have st_ne: "provider_table ?st \<noteq> -1" by (simp add: st)
  from u have tabs: "tabs = (tagged_tables s)[0 := (tagged_tables s ! 0)[0 := ?e]]"
    unfolding update_tables_correct[OF st_ne] by (simp add: f(2,8) st up)
  have n0: "tabs ! 0 ! 0 = ?e" "tabs ! Suc 0 ! 0 = \<lparr>tag = 0, ctr = 0, u = 0\<rparr>"
    "length tabs = 12" "length (tabs ! 0) = 1024" "length (tabs ! Suc 0) = 1024"
    unfolding tabs by (simp_all add: l assms(5))
  have a0: "age_useful tabs ! 0 ! 0 = ?e\<lparr>u := drop_bit 1 (u ?e)\<rparr>"
    using age_useful_nth[of 0 tabs 0] by (simp add: n0)
  have a1: "age_useful tabs ! Suc 0 ! 0 = \<lparr>tag = 0, ctr = 0, u = 0\<rparr>"
    using age_useful_nth[of "Suc 0" tabs 0] by (simp add: n0)
  have e0: "tagged_tables s' ! 0 ! 0 =
           \<lparr>tag = 0, ctr = (if d then min (c + 1) 3 else max (c - 1) (- 4)),
            u = (if RESET_PERIOD \<le> (reset_counter s + 1) mod 2 ^ 32
                 then (if d then v else min (v + 1) 3) div 2
                 else (if d then v else min (v + 1) 3))\<rparr>"
    by (simp add: t f(6) a0 n0 update_ctr_def TAGE_PRED_BITS_def update_useful_eq drop_bit_eq_div)
  have e1: "tagged_tables s' ! Suc 0 ! 0 = \<lparr>tag = 0, ctr = 0, u = 0\<rparr>"
    by (simp add: t a1 n0)
  have mm: "use_alt_on_na s' = (if d then use_alt_on_na s else use_alt_on_na s - 1)"
    by (simp add: m f(5) update_use_alt_eq st)
  from r w g' wt rc e0 e1 mm assms(3) show ?thesis by simp
qed

lemma cold_slots:
  "tagged_tables SampleCondPredictor ! 0 ! 0 = \<lparr>tag = 0, ctr = 0, u = 0\<rparr>"
  "tagged_tables SampleCondPredictor ! Suc 0 ! 0 = \<lparr>tag = 0, ctr = 0, u = 0\<rparr>"
  by (simp_all add: cold_table cfgs mk_cfg_def entries_def)

lemma reset_counter_step:
  assumes "rc < RESET_PERIOD"
  shows "(if RESET_PERIOD \<le> (rc + 1) mod 2 ^ 32 then 0 else (rc + 1) mod 2 ^ 32) < RESET_PERIOD"
    and "rc + 1 < RESET_PERIOD \<Longrightarrow> \<not> RESET_PERIOD \<le> (rc + 1) mod 2 ^ 32"
    and "rc + 1 < RESET_PERIOD \<Longrightarrow> (rc + 1) mod 2 ^ 32 = rc + 1"
  using assms by (simp_all add: RESET_PERIOD_def)

lemma rounds_4096_not_taken:
  "\<exists>s v. run SampleCondPredictor (same_direction_rounds 4096 4100 False n) = Inr s \<and> wf s
     \<and> ghr s = replicate (min n 672) False
     \<and> weights s = weights SampleCondPredictor
     \<and> reset_counter s < RESET_PERIOD
     \<and> tagged_tables s ! 0 ! 0 = \<lparr>tag = 0, ctr = max (- int n) (- 4), u = v\<rparr>
     \<and> tagged_tables s ! Suc 0 ! 0 = \<lparr>tag = 0, ctr = 0, u = 0\<rparr>
     \<and> use_alt_on_na s = 8 - n
     \<and> (n < RESET_PERIOD \<longrightarrow> reset_counter s = n \<and> v = min n 3)"
proof (induction n)
  case 0
  show ?case
    by (simp add: same_direction_rounds_def cold_wf cold_ghr cold_slots cold_meta)
       (simp add: SampleCondPredictor_def RESET_PERIOD_def)
next
  case (Suc n)
  then obtain s v where
    r: "run SampleCondPredictor (same_direction_rounds 4096 4100 False n) = Inr s"
    and w: "wf s" and g: "ghr s = replicate (min n 672) False"
    and wt: "weights s = weights SampleCondPredictor"
    and rc: "reset_counter s < RESET_PERIOD"
    and e0: "tagged_tables s ! 0 ! 0 = \<lparr>tag = 0, ctr = max (- int n) (- 4), u = v\<rparr>"
    and e1: "tagged_tables s ! Suc 0 ! 0 = \<lparr>tag = 0, ctr = 0, u = 0\<rparr>"
    and m: "use_alt_on_na s = 8 - n"
    and x: "n < RESET_PERIOD \<longrightarrow> reset_counter s = n \<and> v = min n 3"
    by blast
  from round_4096[OF w g wt e0 e1, of False] obtain s' where
    r': "run s (same_direction_round 4096 4100 False) = Inr s'" and w': "wf s'"
    and g': "ghr s' = replicate (if min n 672 < 672 then Suc (min n 672) else min n 672) False"
    and wt': "weights s' = weights SampleCondPredictor"
    and rc': "reset_counter s' = (if RESET_PERIOD \<le> (reset_counter s + 1) mod 2 ^ 32 then 0
                             else (reset_counter s + 1) mod 2 ^ 32)"
    and e0': "tagged_tables s' ! 0 ! 0 =
           \<lparr>tag = 0, ctr = max (max (- int n) (- 4) - 1) (- 4),
            u = (if RESET_PERIOD \<le> (reset_counter s + 1) mod 2 ^ 32
                 then (min (v + 1) 3) div 2 else min (v + 1) 3)\<rparr>"
    and e1': "tagged_tables s' ! Suc 0 ! 0 = \<lparr>tag = 0, ctr = 0, u = 0\<rparr>"
    and m': "use_alt_on_na s' = use_alt_on_na s - 1"
    by auto
  have a: "run SampleCondPredictor (same_direction_rounds 4096 4100 False (Suc n)) = Inr s'"
    by (simp add: rounds_Suc run_append r r')
  have b: "ghr s' = replicate (min (Suc n) 672) False"
    unfolding g' by (rule arg_cong[where f = "\<lambda>k. replicate k False"]) simp
  have c: "max (max (- int n) (- 4) - 1) (- 4) = max (- int (Suc n)) (- 4)" by simp
  have d: "reset_counter s' < RESET_PERIOD" unfolding rc' by (rule reset_counter_step(1)[OF rc])
  have e: "use_alt_on_na s' = 8 - Suc n" by (simp add: m' m)
  let ?v' = "if RESET_PERIOD \<le> (reset_counter s + 1) mod 2 ^ 32
                 then (min (v + 1) 3) div 2 else min (v + 1) 3"
  have f: "Suc n < RESET_PERIOD \<longrightarrow> reset_counter s' = Suc n \<and> ?v' = min (Suc n) 3"
  proof
    assume lt: "Suc n < RESET_PERIOD"
    with x have y: "reset_counter s = n" "v = min n 3" by simp_all
    from lt y have z: "reset_counter s + 1 < RESET_PERIOD" by simp
    from reset_counter_step(2,3)[OF rc z] y
    show "reset_counter s' = Suc n \<and> ?v' = min (Suc n) 3"
      unfolding rc' by simp
  qed
  from a w' b wt' d e0'[unfolded c] e1' e f show ?case by blast
qed

lemma rounds_4096_taken:
  "\<exists>s v. run SampleCondPredictor (same_direction_rounds 4096 4100 True n) = Inr s \<and> wf s
     \<and> ghr s = replicate (min n 672) False
     \<and> weights s = weights SampleCondPredictor
     \<and> tagged_tables s ! 0 ! 0 = \<lparr>tag = 0, ctr = min (int n) 3, u = v\<rparr>
     \<and> tagged_tables s ! Suc 0 ! 0 = \<lparr>tag = 0, ctr = 0, u = 0\<rparr>
     \<and> use_alt_on_na s = 8"
proof (induction n)
  case 0
  show ?case
    by (simp add: same_direction_rounds_def cold_wf cold_ghr cold_slots cold_meta)
next
  case (Suc n)
  then obtain s v where
    r: "run SampleCondPredictor (same_direction_rounds 4096 4100 True n) = Inr s"
    and w: "wf s" and g: "ghr s = replicate (min n 672) False"
    and wt: "weights s = weights SampleCondPredictor"
    and e0: "tagged_tables s ! 0 ! 0 = \<lparr>tag = 0, ctr = min (int n) 3, u = v\<rparr>"
    and e1: "tagged_tables s ! Suc 0 ! 0 = \<lparr>tag = 0, ctr = 0, u = 0\<rparr>"
    and m: "use_alt_on_na s = 8"
    by blast
  from round_4096[OF w g wt e0 e1, of True] obtain s' v' where
    r': "run s (same_direction_round 4096 4100 True) = Inr s'" and w': "wf s'"
    and g': "ghr s' = replicate (if min n 672 < 672 then Suc (min n 672) else min n 672) False"
    and wt': "weights s' = weights SampleCondPredictor"
    and e0': "tagged_tables s' ! 0 ! 0 = \<lparr>tag = 0, ctr = min (min (int n) 3 + 1) 3, u = v'\<rparr>"
    and e1': "tagged_tables s' ! Suc 0 ! 0 = \<lparr>tag = 0, ctr = 0, u = 0\<rparr>"
    and m': "use_alt_on_na s' = use_alt_on_na s"
    by auto
  have a: "run SampleCondPredictor (same_direction_rounds 4096 4100 True (Suc n)) = Inr s'"
    by (simp add: rounds_Suc run_append r r')
  have b: "ghr s' = replicate (min (Suc n) 672) False"
    unfolding g' by (rule arg_cong[where f = "\<lambda>k. replicate k False"]) simp
  have c: "min (min (int n) 3 + 1) 3 = min (int (Suc n)) 3" by simp
  from a w' b wt' e0'[unfolded c] e1' m' m show ?case by auto
qed


lemma quiet_tag_4097:
  "list_all (\<lambda>i. hash_tag (replicate k False) 4097 i sk \<noteq> 0) [0..<12]"
  by (simp add: upt_12 hash_tag_def compute_hash_quiet cfgs mk_cfg_def)

lemma quiet_no_match:
  assumes "wf s" "ghr s = replicate k False"
    and "list_all (list_all (\<lambda>e. tag e = 0)) (tagged_tables s)"
  shows "find (tag_match s 4097) (top_pred_idxs s) = None"
proof -
  have "\<not> tag_match s 4097 i" if i: "i < 12" for i
  proof -
    note l = wf_lengths(1)[OF assms(1) i] wf_lengths(3)[OF assms(1) i, of "ghr s" 4097 0]
    from assms(3) l(1) i have "list_all (\<lambda>e. tag e = 0) (tagged_tables s ! i)"
      by (simp add: list_all_length)
    with l(2) have z: "tag (tagged_tables s ! i ! hash_idx (tagged_tables s) (ghr s) 4097 i 0) = 0"
      by (simp add: list_all_length)
    from quiet_tag_4097[of k 0] i have "hash_tag (replicate k False) 4097 i 0 \<noteq> 0"
      by (simp add: list_all_length)
    with z show ?thesis by (simp add: tag_match_def assms(2))
  qed
  with top_pred_idxs_perm[of s] show ?thesis
    by (simp add: find_None_iff NUM_TAGGED_TABLES_def)
qed

lemma age_useful_tags:
  assumes "list_all (list_all (\<lambda>e. tag e = 0)) tabs"
  shows "list_all (list_all (\<lambda>e. tag e = 0)) (age_useful tabs)"
  using assms by (simp add: age_useful_def list_all_iff)

lemma base_length: "wf s \<Longrightarrow> length (base_table s) = 16384"
  by (simp add: wf_def BASE_INDEX_BITS_def)

lemma round_4097:
  assumes "wf s" "ghr s = replicate k False"
    and "list_all (list_all (\<lambda>e. tag e = 0)) (tagged_tables s)"
  shows "\<exists>s'. run s (same_direction_round 4097 4101 d) = Inr s' \<and> wf s'
     \<and> ghr s' = replicate (if k < 672 then Suc k else k) False
     \<and> list_all (list_all (\<lambda>e. tag e = 0)) (tagged_tables s')
     \<and> base_table s' ! 4097 =
           (if d then min (base_table s ! 4097 + 1) 1 else max (base_table s ! 4097 - 1) (- 2))"
proof -
  let ?s2 = "history_update (fst (predict s 1 0 4097 False 0)) 1 0 4097 False 4101"
  let ?st = "lookup_or_insert (speculative_states ?s2) (get_unique_inst_id 1 0)"
  note f = round_pushed[of s 4097 4101]
  from round_run[OF assms(1), of 4097 4101 d] obtain s' where
    r: "run s (same_direction_round 4097 4101 d) = Inr s'"
    and s': "update ?s2 1 0 4097 d d 4101 = Inr s'"
    and w: "wf s'" and g: "ghr s' = push_ghr (ghr s) False"
    by blast
  have g': "ghr s' = replicate (if k < 672 then Suc k else k) False"
    unfolding g assms(2) by (rule push_ghr_quiet)
  have st: "provider_table ?st = -1"
    by (simp add: f(7) predict_state_scan quiet_no_match[OF assms] use_alt_def Let_def)
  from update_Inr[OF s'] obtain hist tabs ws bt where
    u: "update_tables ?s2 hist ?st (unat (delta_cycles ?s2 ?st)) 4097 d d = (tabs, ws, bt)"
    and t: "tagged_tables s' = (if (reset_counter ?s2 + 1) mod 2 ^ 32 \<ge> RESET_PERIOD then age_useful tabs else tabs)"
    and b: "base_table s' = bt"
    by blast
  from u have tb: "tabs = tagged_tables s" "bt = update_base (base_table s) 4097 d"
    unfolding update_tables_base[OF st] by (simp_all add: f)
  have tg: "list_all (list_all (\<lambda>e. tag e = 0)) (tagged_tables s')"
    unfolding t tb using assms(3) age_useful_tags[OF assms(3)] by simp
  have bb: "base_table s' ! 4097 =
           (if d then min (base_table s ! 4097 + 1) 1 else max (base_table s ! 4097 - 1) (- 2))"
    unfolding b tb by (simp add: update_base_def Let_def base_length[OF assms(1)] BASE_PRED_BITS_def)
  from r w g' tg bb show ?thesis by blast
qed

lemma cold_tags: "list_all (list_all (\<lambda>e. tag e = 0)) (tagged_tables SampleCondPredictor)"
  by (simp add: SampleCondPredictor_def list_all_iff)

lemma rounds_4097:
  "\<exists>s. run SampleCondPredictor (same_direction_rounds 4097 4101 d n) = Inr s \<and> wf s
     \<and> ghr s = replicate (min n 672) False
     \<and> list_all (list_all (\<lambda>e. tag e = 0)) (tagged_tables s)
     \<and> base_table s ! 4097 = (if d then min (int n) 1 else max (- int n) (- 2))"
proof (induction n)
  case 0
  show ?case
    by (simp add: same_direction_rounds_def cold_wf cold_ghr cold_tags cold_base)
next
  case (Suc n)
  then obtain s where
    r: "run SampleCondPredictor (same_direction_rounds 4097 4101 d n) = Inr s"
    and w: "wf s" and g: "ghr s = replicate (min n 672) False"
    and tg: "list_all (list_all (\<lambda>e. tag e = 0)) (tagged_tables s)"
    and b: "base_table s ! 4097 = (if d then min (int n) 1 else max (- int n) (- 2))"
    by blast
  from round_4097[OF w g tg, of d] obtain s' where
    r': "run s (same_direction_round 4097 4101 d) = Inr s'" and w': "wf s'"
    and g': "ghr s' = replicate (if min n 672 < 672 then Suc (min n 672) else min n 672) False"
    and tg': "list_all (list_all (\<lambda>e. tag e = 0)) (tagged_tables s')"
    and b': "base_table s' ! 4097 =
           (if d then min (base_table s ! 4097 + 1) 1 else max (base_table s ! 4097 - 1) (- 2))"
    by blast
  have a: "run SampleCondPredictor (same_direction_rounds 4097 4101 d (Suc n)) = Inr s'"
    by (simp add: rounds_Suc run_append r r')
  have c: "ghr s' = replicate (min (Suc n) 672) False"
    unfolding g' by (rule arg_cong[where f = "\<lambda>k. replicate k False"]) simp
  have e: "base_table s' ! 4097 = (if d then min (int (Suc n)) 1 else max (- int (Suc n)) (- 2))"
    unfolding b' b by (auto simp: max_def min_def)
  from a w' c tg' e show ?case by blast
qed


lemma quiet_entry_at:
  assumes "ghr s = replicate k False"
  shows "entry_at s 4096 0 = tagged_tables s ! 0 ! 0"
  by (simp add: entry_at_def assms quiet_idx)

lemma lookup_provider_ok:
  assumes "run SampleCondPredictor cs = Inr s"
  shows "provider_ok (lookup_or_insert (speculative_states s) i)"
proof (cases "speculative_states s i")
  case None
  then show ?thesis
    by (simp add: lookup_or_insert_def provider_ok_def value_init_state_def NUM_TAGGED_TABLES_def)
next
  case (Some st)
  with reachable_checkpoints[OF assms Some] show ?thesis by (simp add: lookup_or_insert_def)
qed

text \<open>
  Claim C7. In every state \<open>s\<close> that a sequence of \<^verbatim>\<open>predict\<close>, \<^verbatim>\<open>history_update\<close>
  and \<^verbatim>\<open>update\<close> calls reaches from the constructed predictor, every tagged prediction
  counter is in \<open>[-4, 3]\<close>, every usefulness counter in \<open>[0, 3]\<close>, every base counter in
  \<open>[-2, 1]\<close> and the meta-counter in \<open>[0, 15]\<close>.

  Every \<^verbatim>\<open>update\<close> that completes from such a state moves its counters by saturating
  steps. With a tagged provider, the provider's prediction counter goes one up, stopping at
  3, when the branch was taken and one down, stopping at \<open>-4\<close>, when it was not; its
  usefulness counter goes one up, stopping at 3, or one down, stopping at 0, when the
  alternate prediction differs from the predicted direction (and is halved when the reset
  period has elapsed); the meta-counter goes one up, stopping at 15, or one down, stopping
  at 0; the base table is not changed. With the base predictor as provider, the base
  counter of the program counter goes one up, stopping at 1, or one down, stopping at
  \<open>-2\<close>, and the meta-counter is not changed.

  Any number \<open>n\<close> of consecutive rounds in one direction on one program counter complete
  and leave the counter at the bound once it is reached: at 0x1000, where table 0 provides,
  the prediction counter is \<open>max (-n) (-4)\<close> after \<open>n\<close> not-taken rounds, with the
  meta-counter at \<open>8 - n\<close> cut off at 0 and the usefulness counter at \<open>min n 3\<close> as long
  as no halving has occurred, and \<open>min n 3\<close> after \<open>n\<close> taken rounds; at 0x1001, where the
  base predictor provides, the base counter is \<open>max (-n) (-2)\<close> and \<open>min n 1\<close>.
\<close>

theorem counters_saturate:
  assumes "run SampleCondPredictor cs = Inr s"
  shows "counters_in_range s
     \<and> (\<forall>seq_no piece PC r p nextPC s'.
          update s seq_no piece PC r p nextPC = Inr s' \<longrightarrow>
          (let st = lookup_or_insert (speculative_states s) (get_unique_inst_id seq_no piece);
               delta = unat (delta_cycles s st);
               aged = (RESET_PERIOD \<le> (reset_counter s + 1) mod 2 ^ 32);
               t = nat (provider_table st);
               i = hash_idx (tagged_tables s) (ghr s') PC t delta;
               b = unat PC mod length (base_table s);
               e = tagged_tables s ! t ! i;
               e' = tagged_tables s' ! t ! i
           in if provider_table st \<noteq> -1 then
                ctr e' = (if r then min (ctr e + 1) 3 else max (ctr e - 1) (- 4))
                \<and> u e' = (let v = (if altpred st = p then u e
                                    else if r = p then min (u e + 1) 3 else u e - 1)
                          in if aged then v div 2 else v)
                \<and> base_table s' = base_table s
                \<and> use_alt_on_na s' =
                    (if altpred st = r \<and> p \<noteq> r then min (use_alt_on_na s + 1) 15
                     else if altpred st \<noteq> r \<and> p = r then use_alt_on_na s - 1
                     else use_alt_on_na s)
              else
                base_table s' = (base_table s)
                   [b := (if r then min (base_table s ! b + 1) 1 else max (base_table s ! b - 1) (- 2))]
                \<and> use_alt_on_na s' = use_alt_on_na s))
     \<and> (\<exists>s1. run SampleCondPredictor (same_direction_rounds 4096 4100 False n) = Inr s1
            \<and> ctr (entry_at s1 4096 0) = max (- int n) (- 4)
            \<and> use_alt_on_na s1 = 8 - n
            \<and> (n < RESET_PERIOD \<longrightarrow> u (entry_at s1 4096 0) = min n 3))
     \<and> (\<exists>s1. run SampleCondPredictor (same_direction_rounds 4096 4100 True n) = Inr s1
            \<and> ctr (entry_at s1 4096 0) = min (int n) 3)
     \<and> (\<exists>s1. run SampleCondPredictor (same_direction_rounds 4097 4101 False n) = Inr s1
            \<and> base_table s1 ! (unat (4097 :: u64) mod length (base_table s1)) = max (- int n) (- 2))
     \<and> (\<exists>s1. run SampleCondPredictor (same_direction_rounds 4097 4101 True n) = Inr s1
            \<and> base_table s1 ! (unat (4097 :: u64) mod length (base_table s1)) = min (int n) 1)"
proof -
  note a = run_range[OF cold_range assms]
  note w = reachable_wf[OF assms]
  have b: "\<forall>seq_no piece PC r p nextPC s'.
          update s seq_no piece PC r p nextPC = Inr s' \<longrightarrow>
          (let st = lookup_or_insert (speculative_states s) (get_unique_inst_id seq_no piece);
               delta = unat (delta_cycles s st);
               aged = (RESET_PERIOD \<le> (reset_counter s + 1) mod 2 ^ 32);
               t = nat (provider_table st);
               i = hash_idx (tagged_tables s) (ghr s') PC t delta;
               b = unat PC mod length (base_table s);
               e = tagged_tables s ! t ! i;
               e' = tagged_tables s' ! t ! i
           in if provider_table st \<noteq> -1 then
                ctr e' = (if r then min (ctr e + 1) 3 else max (ctr e - 1) (- 4))
                \<and> u e' = (let v = (if altpred st = p then u e
                                    else if r = p then min (u e + 1) 3 else u e - 1)
                          in if aged then v div 2 else v)
                \<and> base_table s' = base_table s
                \<and> use_alt_on_na s' =
                    (if altpred st = r \<and> p \<noteq> r then min (use_alt_on_na s + 1) 15
                     else if altpred st \<noteq> r \<and> p = r then use_alt_on_na s - 1
                     else use_alt_on_na s)
              else
                base_table s' = (base_table s)
                   [b := (if r then min (base_table s ! b + 1) 1 else max (base_table s ! b - 1) (- 2))]
                \<and> use_alt_on_na s' = use_alt_on_na s)"
    using update_saturating_step[OF w _ lookup_provider_ok[OF assms]] by blast
  from rounds_4096_not_taken[of n] obtain s1 v where
    c1: "run SampleCondPredictor (same_direction_rounds 4096 4100 False n) = Inr s1"
    and c2: "ghr s1 = replicate (min n 672) False"
    and c3: "tagged_tables s1 ! 0 ! 0 = \<lparr>tag = 0, ctr = max (- int n) (- 4), u = v\<rparr>"
    and c4: "use_alt_on_na s1 = 8 - n"
    and c5: "n < RESET_PERIOD \<longrightarrow> reset_counter s1 = n \<and> v = min n 3"
    by blast
  have c: "\<exists>s1. run SampleCondPredictor (same_direction_rounds 4096 4100 False n) = Inr s1
            \<and> ctr (entry_at s1 4096 0) = max (- int n) (- 4)
            \<and> use_alt_on_na s1 = 8 - n
            \<and> (n < RESET_PERIOD \<longrightarrow> u (entry_at s1 4096 0) = min n 3)"
    using c1 c4 c5 by (auto simp: quiet_entry_at[OF c2] c3)
  from rounds_4096_taken[of n] obtain s2 v2 where
    d1: "run SampleCondPredictor (same_direction_rounds 4096 4100 True n) = Inr s2"
    and d2: "ghr s2 = replicate (min n 672) False"
    and d3: "tagged_tables s2 ! 0 ! 0 = \<lparr>tag = 0, ctr = min (int n) 3, u = v2\<rparr>"
    by blast
  have d: "\<exists>s1. run SampleCondPredictor (same_direction_rounds 4096 4100 True n) = Inr s1
            \<and> ctr (entry_at s1 4096 0) = min (int n) 3"
    using d1 by (auto simp: quiet_entry_at[OF d2] d3)
  have e: "\<exists>s1. run SampleCondPredictor (same_direction_rounds 4097 4101 dir n) = Inr s1
            \<and> base_table s1 ! (unat (4097 :: u64) mod length (base_table s1))
                = (if dir then min (int n) 1 else max (- int n) (- 2))" for dir
  proof -
    from rounds_4097[of dir n] obtain s3 where
      "run SampleCondPredictor (same_direction_rounds 4097 4101 dir n) = Inr s3" "wf s3"
      "base_table s3 ! 4097 = (if dir then min (int n) 1 else max (- int n) (- 2))"
      by blast
    then show ?thesis by (auto simp: base_length)
  qed
  from a b c d e[of False] e[of True] show ?thesis by simp
qed

text \<open>
  The misprediction scenario at 0x1000 ends in range with the provider's counter one down
  at \<open>-1\<close>; and 1000 rounds in one direction end at the bounds.
\<close>

theorem counters_saturate_witness:
  "(\<exists>s. run SampleCondPredictor tagged_mispredict = Inr s \<and> counters_in_range s
        \<and> ctr (tagged_tables s ! 0 ! 0) = - 1)
   \<and> (\<exists>s. run SampleCondPredictor (same_direction_rounds 4096 4100 False 1000) = Inr s
        \<and> ctr (entry_at s 4096 0) = - 4 \<and> u (entry_at s 4096 0) = 3 \<and> use_alt_on_na s = 0)
   \<and> (\<exists>s. run SampleCondPredictor (same_direction_rounds 4096 4100 True 1000) = Inr s
        \<and> ctr (entry_at s 4096 0) = 3)
   \<and> (\<exists>s. run SampleCondPredictor (same_direction_rounds 4097 4101 False 1000) = Inr s
        \<and> base_table s ! 4097 = - 2)
   \<and> (\<exists>s. run SampleCondPredictor (same_direction_rounds 4097 4101 True 1000) = Inr s
        \<and> base_table s ! 4097 = 1)"
proof -
  let ?cs = "[Predict 1 0 4096 False 0, HistoryUpdate 1 0 4096 True 4100]"
  let ?s2 = "history_update (fst (predict SampleCondPredictor 1 0 4096 False 0)) 1 0 4096 True 4100"
  let ?st = "lookup_or_insert (speculative_states ?s2) (get_unique_inst_id 1 0)"
  have r2: "run SampleCondPredictor ?cs = Inr ?s2" by simp
  note f = pushed_once[of 4096 4100]
  obtain s where s: "run SampleCondPredictor tagged_mispredict = Inr s"
    using tagged_mispredict_run by blast
  then have us: "update ?s2 1 0 4096 False True 4100 = Inr s"
    by (simp add: tagged_mispredict_def split: sum.splits)
  from update_ghr[OF us] have g: "ghr s = [False]" by (simp add: f delta_cycles_def rollback_ghr_def)
  have i0: "hash_idx (tagged_tables SampleCondPredictor) [False] 4096 0 0 = 0"
    by (simp add: hash_idx_def compute_hash_one_false cfgs mk_cfg_def)
  from counters_saturate[OF r2, of 1000] us
  have "let st = ?st; delta = unat (delta_cycles ?s2 st);
            t = nat (provider_table st);
            i = hash_idx (tagged_tables ?s2) (ghr s) 4096 t delta
        in provider_table st \<noteq> -1 \<longrightarrow>
             ctr (tagged_tables s ! t ! i) = max (ctr (tagged_tables ?s2 ! t ! i) - 1) (- 4)"
    by (simp add: Let_def)
  then have one: "ctr (tagged_tables s ! 0 ! 0) = - 1"
    by (simp add: Let_def f delta_cycles_def cold_predict_state g i0 cold_slots)
  from counters_saturate[OF s, of 1000] have rng: "counters_in_range s" by blast
  from counters_saturate[OF s, of 1000]
  have sc: "\<exists>s1. run SampleCondPredictor (same_direction_rounds 4096 4100 False 1000) = Inr s1
            \<and> ctr (entry_at s1 4096 0) = max (- int 1000) (- 4)
            \<and> use_alt_on_na s1 = 8 - 1000
            \<and> (1000 < RESET_PERIOD \<longrightarrow> u (entry_at s1 4096 0) = min 1000 3)"
    and sd: "\<exists>s1. run SampleCondPredictor (same_direction_rounds 4096 4100 True 1000) = Inr s1
            \<and> ctr (entry_at s1 4096 0) = min (int 1000) 3"
    and se: "\<exists>s1. run SampleCondPredictor (same_direction_rounds 4097 4101 False 1000) = Inr s1
            \<and> base_table s1 ! (unat (4097 :: u64) mod length (base_table s1)) = max (- int 1000) (- 2)"
    and sf: "\<exists>s1. run SampleCondPredictor (same_direction_rounds 4097 4101 True 1000) = Inr s1
            \<and> base_table s1 ! (unat (4097 :: u64) mod length (base_table s1)) = min (int 1000) 1"
    by blast+
  from sc have two: "\<exists>s. run SampleCondPredictor (same_direction_rounds 4096 4100 False 1000) = Inr s
        \<and> ctr (entry_at s 4096 0) = - 4 \<and> u (entry_at s 4096 0) = 3 \<and> use_alt_on_na s = 0"
    by (auto simp: RESET_PERIOD_def)
  from sd have three: "\<exists>s. run SampleCondPredictor (same_direction_rounds 4096 4100 True 1000) = Inr s
        \<and> ctr (entry_at s 4096 0) = 3" by auto
  have bl: "length (base_table s1) = 16384"
    if "run SampleCondPredictor cs' = Inr s1" for cs' s1
    using base_length[OF reachable_wf[OF that]] .
  from se have four: "\<exists>s. run SampleCondPredictor (same_direction_rounds 4097 4101 False 1000) = Inr s
        \<and> base_table s ! 4097 = - 2" by (auto simp: bl)
  from sf have five: "\<exists>s. run SampleCondPredictor (same_direction_rounds 4097 4101 True 1000) = Inr s
        \<and> base_table s ! 4097 = 1" by (auto simp: bl)
  from s rng one two three four five show ?thesis by blast
qed

end
